theory Spec2Isabelle
  imports Complex_Main "HOL-Library.Word" "HOL-Library.Log_Nat"
begin

unbundle bit_operations_syntax

section \<open>The Merkle tree of package merkle\<close>

text \<open>
  A shallow embedding of the Go package \<^verbatim>\<open>merkle\<close> (tree construction, proof generation and
  verification). Conventions of the embedding:
  \<^item> a \<^verbatim>\<open>[]byte\<close> is a list of 8-bit words; a nil slice and an empty slice are both \<open>[]\<close>;
  \<^item> a byte slice is the string of its elements, and \<^verbatim>\<open>append(a, b...)\<close> is list
    concatenation: the slices returned by \<^verbatim>\<open>Serialize\<close> and \<^verbatim>\<open>HashFunc\<close> are taken without
    spare capacity, for which \<^verbatim>\<open>append\<close> copies (\<open>goAppend\<close> below). With spare capacity
    \<^verbatim>\<open>append\<close> writes into the array of \<^verbatim>\<open>a\<close>, storage of the caller, which the functions
    below do not follow;
  \<^item> a Go function returning \<^verbatim>\<open>(value, error)\<close> returns a pair whose second component is
    \<open>None\<close> for a nil error;
  \<^item> a run-time panic (index out of range, call of a nil function) is the value \<open>None\<close> of an
    outer option;
  \<^item> \<^verbatim>\<open>int\<close> values that count elements are natural numbers, and so is the \<^verbatim>\<open>uint32\<close>
    \<^verbatim>\<open>Depth\<close> (at most 64 for the length of a slice); \<^verbatim>\<open>Proof.Path\<close> is a 32-bit word;
  \<^item> \<^verbatim>\<open>reflect.DeepEqual\<close> on two byte slices is equality of their contents (it also tells a
    nil slice from an empty one, which the embedding does not);
  \<^item> the system random source read by \<^verbatim>\<open>crypto/rand\<close> is an explicit argument: the outcome
    of the k-th read, with the number of reads done so far threaded through the code;
  \<^item> the goroutine filling \<^verbatim>\<open>leafMap\<close> is run to completion before the levels are built.
\<close>

subsection \<open>Data\<close>

type_synonym bytes = "8 word list"

datatype error =
    ErrTooFewBlocks      \<comment> \<open>the number of data blocks must be greater than 1\<close>
  | ErrInvalidMode       \<comment> \<open>invalid configuration mode\<close>
  | ErrNilDataBlock      \<comment> \<open>data block is nil\<close>
  | ErrNilProof          \<comment> \<open>proof is nil\<close>
  | ErrNotBuilt          \<comment> \<open>merkle Tree is not in built, could not generate proof by this method\<close>
  | ErrNotMember         \<comment> \<open>data block is not a member of the Merkle Tree\<close>
  | ErrExternal nat      \<comment> \<open>an error made by a collaborator: Serialize, HashFunc, rand.Read\<close>

text \<open>\<^verbatim>\<open>type DataBlock interface { Serialize() ([]byte, error) }\<close>\<close>

datatype DataBlock = DataBlock (Serialize: "bytes \<times> error option")

type_synonym HashFuncType = "bytes \<Rightarrow> bytes \<times> error option"

definition ModeProofGen :: int where "ModeProofGen = 0"
definition ModeTreeBuild :: int where "ModeTreeBuild = 1"
definition ModeProofGenAndTreeBuild :: int where "ModeProofGenAndTreeBuild = 2"
definition defaultHashLen :: nat where "defaultHashLen = 32"

record Config =
  HashFunc :: "HashFuncType option"
  NumRoutines :: int
  Mode :: int
  NoDuplicates :: bool
  SortLeaves :: bool
  SortPairs :: bool

record Proof =
  Siblings :: "bytes list"
  Path :: "32 word"

record MerkleTree =
  Config :: Config
  leafMap :: "bytes \<rightharpoonup> nat"
  tree :: "bytes list list"
  Root :: bytes
  Leaves :: "bytes list"
  Proofs :: "Proof list"
  Depth :: nat

text \<open>The outcome of the k-th call of \<^verbatim>\<open>rand.Read\<close> on a buffer of \<open>defaultHashLen\<close> bytes.\<close>

type_synonym entropy = "nat \<Rightarrow> bytes \<times> error option"

subsection \<open>Slices and append\<close>

text \<open>
  A Go slice is a window on an array: the array, the offset of the first element, the
  length, and the capacity (the room from the offset to the end of the array). The heap
  gives the contents of every array.
\<close>

record slice =
  array :: nat
  offset :: nat
  len :: nat
  cap :: nat

type_synonym heap = "nat \<Rightarrow> bytes"

definition contents :: "heap \<Rightarrow> slice \<Rightarrow> bytes" where
  "contents h s = take (len s) (drop (offset s) (h (array s)))"

text \<open>
  \<^verbatim>\<open>append(a, b...)\<close>: when the capacity of \<^verbatim>\<open>a\<close> has room for the elements of \<^verbatim>\<open>b\<close> they
  are written behind those of \<^verbatim>\<open>a\<close>, in the array of \<^verbatim>\<open>a\<close>; otherwise both are copied to a
  new array (number \<open>fresh\<close>; Go may give it more room than needed).
\<close>

definition goAppend :: "heap \<Rightarrow> nat \<Rightarrow> slice \<Rightarrow> slice \<Rightarrow> heap \<times> slice" where
  "goAppend h fresh a b =
     (let ys = contents h b; stop = offset a + len a
      in if len a + length ys \<le> cap a
         then (h(array a := take stop (h (array a)) @ ys @ drop (stop + length ys) (h (array a))),
               a\<lparr>len := len a + length ys\<rparr>)
         else (h(fresh := contents h a @ ys),
               \<lparr>array = fresh, offset = 0, len = len a + length ys, cap = len a + length ys\<rparr>))"

subsection \<open>Loops\<close>

text \<open>
  \<^verbatim>\<open>for i := i0; i < n; i += d { s, err = body(i, s); if err != nil { return } }\<close>:
  the loop stops at the first error, keeping the state reached. The stride \<open>d\<close> is the
  literal 1 or 2 at every use.
\<close>

function forLoop ::
  "nat \<Rightarrow> nat \<Rightarrow> nat \<Rightarrow> (nat \<Rightarrow> 's \<Rightarrow> ('s \<times> error option) option) \<Rightarrow> 's \<Rightarrow> ('s \<times> error option) option"
where
  "forLoop i n d body s =
     (if i < n \<and> 0 < d then
        (case body i s of
           None \<Rightarrow> None
         | Some (s', Some e) \<Rightarrow> Some (s', Some e)
         | Some (s', None) \<Rightarrow> forLoop (i + d) n d body s')
      else Some (s, None))"
  by pat_completeness auto
termination
  by (relation "measure (\<lambda>(i, n, d, body, s). n - i)") auto

text \<open>\<^verbatim>\<open>for i := i0; i < n; i += d { s = body(i, s) }\<close>: a loop whose body returns no error.\<close>

function forRange :: "nat \<Rightarrow> nat \<Rightarrow> nat \<Rightarrow> (nat \<Rightarrow> 's \<Rightarrow> 's option) \<Rightarrow> 's \<Rightarrow> 's option" where
  "forRange i n d body s =
     (if i < n \<and> 0 < d then
        (case body i s of
           None \<Rightarrow> None
         | Some s' \<Rightarrow> forRange (i + d) n d body s')
      else Some s)"
  by pat_completeness auto
termination
  by (relation "measure (\<lambda>(i, n, d, body, s). n - i)") auto

declare forLoop.simps [simp del] forRange.simps [simp del]

subsection \<open>Collaborators from the standard library\<close>

text \<open>\<^verbatim>\<open>bytes.Compare\<close>: lexicographic comparison of unsigned bytes, result -1, 0 or 1.\<close>

fun bytesCompare :: "bytes \<Rightarrow> bytes \<Rightarrow> int" where
  "bytesCompare [] [] = 0"
| "bytesCompare [] (y # ys) = - 1"
| "bytesCompare (x # xs) [] = 1"
| "bytesCompare (x # xs) (y # ys) =
     (if x < y then - 1 else if y < x then 1 else bytesCompare xs ys)"

text \<open>
  \<^verbatim>\<open>sort.Slice(leaves, func(i, j) { return bytes.Compare(leaves[i], leaves[j]) < 0 })\<close>.
  The comparison is a strict total order on byte strings, so every sorting algorithm
  yields the same slice; it is computed here by insertion.
\<close>

fun insertLeaf :: "bytes \<Rightarrow> bytes list \<Rightarrow> bytes list" where
  "insertLeaf x [] = [x]"
| "insertLeaf x (y # ys) = (if bytesCompare y x < 0 then y # insertLeaf x ys else x # y # ys)"

definition sortSlice :: "bytes list \<Rightarrow> bytes list" where
  "sortSlice leaves = foldr insertLeaf leaves []"

text \<open>\<^verbatim>\<open>math.Log2\<close> and \<^verbatim>\<open>math.Trunc\<close> are taken as the exact functions on the reals.\<close>

definition calTreeDepth :: "nat \<Rightarrow> nat" where
  "calTreeDepth blockLen =
     (let log2BlockLen = log 2 (real blockLen) in
      if log2BlockLen \<noteq> real_of_int \<lfloor>log2BlockLen\<rfloor>
      then nat \<lfloor>log2BlockLen\<rfloor> + 1
      else nat \<lfloor>log2BlockLen\<rfloor>)"

subsection \<open>Hashing and padding\<close>

text \<open>\<^verbatim>\<open>m.HashFunc(x)\<close>: calling a nil function value panics.\<close>

definition callHash :: "Config \<Rightarrow> bytes \<Rightarrow> (bytes \<times> error option) option" where
  "callHash cfg x = (case HashFunc cfg of None \<Rightarrow> None | Some h \<Rightarrow> Some (h x))"

text \<open>
  \<^verbatim>\<open>getDummyHash\<close>: \<open>defaultHashLen\<close> bytes from the random source, or its error.
  The second component is the number of reads done.
\<close>

definition getDummyHash :: "entropy \<Rightarrow> nat \<Rightarrow> (bytes \<times> error option) \<times> nat" where
  "getDummyHash rd k =
     (case rd k of
        (dummyBytes, Some e) \<Rightarrow> (([], Some e), Suc k)
      | (dummyBytes, None) \<Rightarrow>
          ((take defaultHashLen (dummyBytes @ replicate defaultHashLen 0), None), Suc k))"

definition fixOdd ::
  "Config \<Rightarrow> entropy \<Rightarrow> nat \<Rightarrow> bytes list \<Rightarrow> nat \<Rightarrow> ((bytes list \<times> nat \<times> error option) \<times> nat) option"
where
  "fixOdd cfg rd k buf prevLen =
     (if even prevLen then Some ((buf, prevLen, None), k)
      else
        (case (if NoDuplicates cfg
               then (case getDummyHash rd k of
                       ((appendNode, Some e), k') \<Rightarrow> Some (Inl e, k')
                     | ((appendNode, None), k') \<Rightarrow> Some (Inr appendNode, k'))
               else (if prevLen - 1 < length buf then Some (Inr (buf ! (prevLen - 1)), k) else None))
         of
           None \<Rightarrow> None
         | Some (Inl e, k') \<Rightarrow> Some (([], 0, Some e), k')
         | Some (Inr appendNode, k') \<Rightarrow>
             (let prevLen = prevLen + 1 in
              if length buf < prevLen then Some ((buf @ [appendNode], prevLen, None), k')
              else Some ((buf[prevLen - 1 := appendNode], prevLen, None), k'))))"

subsection \<open>Proofs built while the levels are produced\<close>

definition initProofs :: "MerkleTree \<Rightarrow> MerkleTree" where
  "initProofs m =
     m\<lparr>Proofs := replicate (length (Leaves m)) \<lparr>Siblings = [], Path = 0\<rparr>\<rparr>"

text \<open>
  \<^verbatim>\<open>updatePairProof\<close> and \<^verbatim>\<open>updateProofs\<close> read and write only \<^verbatim>\<open>m.Proofs\<close>; they take
  and return that slice. \<^verbatim>\<open>1 << step\<close> is a \<^verbatim>\<open>uint32\<close> where it is added to \<^verbatim>\<open>Path\<close>.
\<close>

definition updatePairProof ::
  "bytes list \<Rightarrow> nat \<Rightarrow> nat \<Rightarrow> nat \<Rightarrow> Proof list \<Rightarrow> Proof list option"
where
  "updatePairProof buf idx batch step ps =
     (let start = idx * batch;
          stop = min (start + batch) (length ps)
      in case forRange start stop 1
           (\<lambda>i ps. if i < length ps \<and> idx + 1 < length buf
                    then Some (ps[i := (ps ! i)\<lparr>Siblings := Siblings (ps ! i) @ [buf ! (idx + 1)],
                                               Path := Path (ps ! i) + push_bit step 1\<rparr>])
                    else None) ps
         of
           None \<Rightarrow> None
         | Some ps \<Rightarrow>
             (let start = start + batch;
                  stop = min (start + batch) (length ps)
              in forRange start stop 1
                   (\<lambda>i ps. if i < length ps \<and> idx < length buf
                            then Some (ps[i := (ps ! i)\<lparr>Siblings := Siblings (ps ! i) @ [buf ! idx]\<rparr>])
                            else None) ps))"

definition updateProofs :: "bytes list \<Rightarrow> nat \<Rightarrow> nat \<Rightarrow> Proof list \<Rightarrow> Proof list option" where
  "updateProofs buf bufLen step ps =
     (let batch = 2 ^ step
      in forRange 0 bufLen 2 (\<lambda>i ps. updatePairProof buf i batch step ps) ps)"

subsection \<open>Leaves\<close>

text \<open>The loop of \<^verbatim>\<open>leafGen\<close>: the serialized blocks in order, or the first error.\<close>

fun serializeBlocks :: "DataBlock list \<Rightarrow> bytes list \<times> error option" where
  "serializeBlocks [] = ([], None)"
| "serializeBlocks (b # bs) =
     (case Serialize b of
        (data, Some e) \<Rightarrow> ([], Some e)
      | (data, None) \<Rightarrow>
          (case serializeBlocks bs of
             (leaves, Some e) \<Rightarrow> ([], Some e)
           | (leaves, None) \<Rightarrow> (data # leaves, None)))"

definition leafGen :: "MerkleTree \<Rightarrow> DataBlock list \<Rightarrow> bytes list \<times> error option" where
  "leafGen m blocks =
     (case serializeBlocks blocks of
        (leaves, Some e) \<Rightarrow> ([], Some e)
      | (leaves, None) \<Rightarrow>
          (if SortLeaves (Config m) then (sortSlice leaves, None) else (leaves, None)))"

subsection \<open>ModeProofGen\<close>

text \<open>
  One round of the loop of \<^verbatim>\<open>proofGen\<close>, on the state \<open>(buf, prevLen, k, Proofs)\<close>: hash the
  pairs in place, halve the length, pad, record the siblings.
\<close>

definition proofGenHash :: "Config \<Rightarrow> nat \<Rightarrow> bytes list \<Rightarrow> (bytes list \<times> error option) option" where
  "proofGenHash cfg idx buf =
     (if idx + 1 < length buf
      then (case callHash cfg (buf ! idx @ buf ! (idx + 1)) of
              None \<Rightarrow> None
            | Some (x, err) \<Rightarrow> Some (buf[idx div 2 := x], err))
      else None)"

definition proofGenStep ::
  "Config \<Rightarrow> entropy \<Rightarrow> nat \<Rightarrow> bytes list \<times> nat \<times> nat \<times> Proof list \<Rightarrow>
   ((bytes list \<times> nat \<times> nat \<times> Proof list) \<times> error option) option"
where
  "proofGenStep cfg rd step st =
     (case st of (buf, prevLen, k, ps) \<Rightarrow>
        (case forLoop 0 prevLen 2 (proofGenHash cfg) buf of
           None \<Rightarrow> None
         | Some (buf, Some e) \<Rightarrow> Some ((buf, prevLen, k, ps), Some e)
         | Some (buf, None) \<Rightarrow>
             (let prevLen = prevLen div 2
              in case fixOdd cfg rd k buf prevLen of
                   None \<Rightarrow> None
                 | Some ((buf, prevLen, Some e), k) \<Rightarrow> Some ((buf, prevLen, k, ps), Some e)
                 | Some ((buf, prevLen, None), k) \<Rightarrow>
                     (case updateProofs buf prevLen step ps of
                        None \<Rightarrow> None
                      | Some ps \<Rightarrow> Some ((buf, prevLen, k, ps), None)))))"

definition proofGen :: "entropy \<Rightarrow> MerkleTree \<Rightarrow> (MerkleTree \<times> error option) option" where
  "proofGen rd m0 =
     (let numLeaves = length (Leaves m0);
          m = initProofs m0;
          buf = Leaves m
      in case fixOdd (Config m) rd 0 buf numLeaves of
           None \<Rightarrow> None
         | Some ((buf, prevLen, Some e), k) \<Rightarrow> Some (m, Some e)
         | Some ((buf, prevLen, None), k) \<Rightarrow>
             (case updateProofs buf numLeaves 0 (Proofs m) of
                None \<Rightarrow> None
              | Some ps \<Rightarrow>
                  (case forLoop 1 (Depth m) 1 (proofGenStep (Config m) rd) (buf, prevLen, k, ps) of
                     None \<Rightarrow> None
                   | Some ((buf, prevLen, k, ps), Some e) \<Rightarrow> Some (m\<lparr>Proofs := ps\<rparr>, Some e)
                   | Some ((buf, prevLen, k, ps), None) \<Rightarrow>
                       (if 1 < length buf
                        then (case callHash (Config m) (buf ! 0 @ buf ! 1) of
                                None \<Rightarrow> None
                              | Some (h, err) \<Rightarrow> Some (m\<lparr>Proofs := ps, Root := h\<rparr>, err))
                        else None))))"

subsection \<open>ModeTreeBuild\<close>

text \<open>The goroutine of \<^verbatim>\<open>treeBuild\<close>: \<^verbatim>\<open>m.leafMap.Store(string(m.Leaves[i]), i)\<close> for every i.\<close>

definition storeLeaves :: "bytes list \<Rightarrow> (bytes \<rightharpoonup> nat) \<Rightarrow> (bytes \<rightharpoonup> nat)" where
  "storeLeaves leaves mp = fold (\<lambda>i mp. mp(leaves ! i \<mapsto> i)) [0..<length leaves] mp"

text \<open>
  The body of the inner loop of \<^verbatim>\<open>treeBuild\<close>, for the pair at \<open>j\<close>, \<open>j + 1\<close> of level \<open>i\<close>:
  an identical pair is propagated, any other pair is hashed (sorted first under \<open>SortPairs\<close>).
\<close>

definition treeBuildPair ::
  "Config \<Rightarrow> nat \<Rightarrow> nat \<Rightarrow> bytes list list \<Rightarrow> (bytes list list \<times> error option) option"
where
  "treeBuildPair cfg i j t =
     (if i + 1 < length t \<and> j + 1 < length (t ! i) \<and> j div 2 < length (t ! (i + 1))
      then
        (let a = t ! i ! j; b = t ! i ! (j + 1)
         in if a = b then Some (t[i + 1 := (t ! (i + 1))[j div 2 := a]], None)
            else
              (case callHash cfg
                      (if SortPairs cfg
                       then (if bytesCompare a b < 0 then a @ b else b @ a)
                       else a @ b)
               of
                 None \<Rightarrow> None
               | Some (x, err) \<Rightarrow> Some (t[i + 1 := (t ! (i + 1))[j div 2 := x]], err)))
      else None)"

text \<open>One round of the outer loop of \<^verbatim>\<open>treeBuild\<close>, on the state \<open>(tree, prevLen, k)\<close>.\<close>

definition treeBuildLevel ::
  "Config \<Rightarrow> entropy \<Rightarrow> nat \<Rightarrow> bytes list list \<times> nat \<times> nat \<Rightarrow>
   ((bytes list list \<times> nat \<times> nat) \<times> error option) option"
where
  "treeBuildLevel cfg rd i st =
     (case st of (t, prevLen, k) \<Rightarrow>
        (if i + 1 < length t
         then
           (let t = t[i + 1 := replicate (prevLen div 2) []]
            in case forLoop 0 prevLen 2 (treeBuildPair cfg i) t of
                 None \<Rightarrow> None
               | Some (t, Some e) \<Rightarrow> Some ((t, prevLen, k), Some e)
               | Some (t, None) \<Rightarrow>
                   (case fixOdd cfg rd k (t ! (i + 1)) (length (t ! (i + 1))) of
                      None \<Rightarrow> None
                    | Some ((lvl, prevLen, err), k) \<Rightarrow> Some ((t[i + 1 := lvl], prevLen, k), err)))
         else None))"

definition treeBuild :: "entropy \<Rightarrow> MerkleTree \<Rightarrow> (MerkleTree \<times> error option) option" where
  "treeBuild rd m0 =
     (let numLeaves = length (Leaves m0);
          m = m0\<lparr>leafMap := storeLeaves (Leaves m0) (leafMap m0)\<rparr>;
          m = m\<lparr>tree := replicate (Depth m) []\<rparr>
      in if Depth m = 0 then None
         else
           (let m = m\<lparr>tree := (tree m)[0 := Leaves m]\<rparr>
            in case fixOdd (Config m) rd 0 (tree m ! 0) numLeaves of
                 None \<Rightarrow> None
               | Some ((lvl, prevLen, err), k) \<Rightarrow>
                   (let m = m\<lparr>tree := (tree m)[0 := lvl]\<rparr>
                    in if err \<noteq> None then Some (m, err)
                       else
                         (case forLoop 0 (Depth m - 1) 1 (treeBuildLevel (Config m) rd)
                                 (tree m, prevLen, k)
                          of
                            None \<Rightarrow> None
                          | Some ((t, prevLen, k), Some e) \<Rightarrow> Some (m\<lparr>tree := t\<rparr>, Some e)
                          | Some ((t, prevLen, k), None) \<Rightarrow>
                              (if Depth m - 1 < length t \<and> 1 < length (t ! (Depth m - 1))
                               then
                                 (case callHash (Config m)
                                         (t ! (Depth m - 1) ! 0 @ t ! (Depth m - 1) ! 1)
                                  of
                                    None \<Rightarrow> None
                                  | Some (h, err) \<Rightarrow> Some (m\<lparr>tree := t, Root := h\<rparr>, err))
                               else None)))))"

subsection \<open>Proofs from the stored levels\<close>

text \<open>
  The loop of \<^verbatim>\<open>New\<close> in \<open>ModeProofGenAndTreeBuild\<close>:
  \<^verbatim>\<open>for i := 0; i < len(m.tree); i++ { m.updateProofs(m.tree[i], len(m.tree[i]), i) }\<close>.
\<close>

definition updateProofsFromTree :: "bytes list list \<Rightarrow> Proof list \<Rightarrow> Proof list option" where
  "updateProofsFromTree t ps =
     forRange 0 (length t) 1 (\<lambda>i ps. updateProofs (t ! i) (length (t ! i)) i ps) ps"

text \<open>One round of the loop of \<^verbatim>\<open>GenerateProof\<close>, on the state \<open>(idx, path, siblings)\<close>.\<close>

definition generateProofStep ::
  "bytes list list \<Rightarrow> nat \<Rightarrow> nat \<times> 32 word \<times> bytes list \<Rightarrow> (nat \<times> 32 word \<times> bytes list) option"
where
  "generateProofStep t i st =
     (case st of (idx, path, siblings) \<Rightarrow>
        (if i < length t \<and> i < length siblings
         then
           (if odd idx
            then (if idx - 1 < length (t ! i)
                  then Some (idx div 2, path, siblings[i := t ! i ! (idx - 1)])
                  else None)
            else (if idx + 1 < length (t ! i)
                  then Some (idx div 2, path + push_bit i 1, siblings[i := t ! i ! (idx + 1)])
                  else None))
         else None))"

definition GenerateProof :: "MerkleTree \<Rightarrow> DataBlock \<Rightarrow> (Proof option \<times> error option) option" where
  "GenerateProof m dataBlock =
     (if Mode (Config m) \<noteq> ModeTreeBuild \<and> Mode (Config m) \<noteq> ModeProofGenAndTreeBuild
      then Some (None, Some ErrNotBuilt)
      else
        (case Serialize dataBlock of
           (blockByte, Some e) \<Rightarrow> Some (None, Some e)
         | (blockByte, None) \<Rightarrow>
             (case callHash (Config m) blockByte of
                None \<Rightarrow> None
              | Some (blockHash, Some e) \<Rightarrow> Some (None, Some e)
              | Some (blockHash, None) \<Rightarrow>
                  (case leafMap m blockHash of
                     None \<Rightarrow> Some (None, Some ErrNotMember)
                   | Some idx \<Rightarrow>
                       (case forRange 0 (Depth m) 1 (generateProofStep (tree m))
                               (idx, 0, replicate (Depth m) [])
                        of
                          None \<Rightarrow> None
                        | Some (idx, path, siblings) \<Rightarrow>
                            Some (Some \<lparr>Siblings = siblings, Path = path\<rparr>, None))))))"

subsection \<open>Verification\<close>

text \<open>The loop of \<^verbatim>\<open>Verify\<close> over \<^verbatim>\<open>proof.Siblings\<close>, on the state \<open>(hash, path)\<close>.\<close>

fun verifyLoop :: "HashFuncType \<Rightarrow> bytes list \<Rightarrow> 32 word \<Rightarrow> bytes \<Rightarrow> bytes \<times> error option" where
  "verifyLoop hashFunc [] path hash = (hash, None)"
| "verifyLoop hashFunc (n # ns) path hash =
     (case (if path AND 1 = 1 then hashFunc (hash @ n) else hashFunc (n @ hash)) of
        (hash, Some e) \<Rightarrow> (hash, Some e)
      | (hash, None) \<Rightarrow> verifyLoop hashFunc ns (drop_bit 1 path) hash)"

text \<open>
  The package function \<^verbatim>\<open>Verify\<close>. Its first argument is \<^verbatim>\<open>defaultHashFunc\<close>, which is
  declared outside the file; a nil block, proof or hash function is \<open>None\<close>.
\<close>

definition Verify ::
  "HashFuncType \<Rightarrow> DataBlock option \<Rightarrow> Proof option \<Rightarrow> bytes \<Rightarrow> HashFuncType option \<Rightarrow>
   bool \<times> error option"
where
  "Verify defaultHashFunc dataBlock prf rootHash hashFunc =
     (case dataBlock of
        None \<Rightarrow> (False, Some ErrNilDataBlock)
      | Some db \<Rightarrow>
          (case prf of
             None \<Rightarrow> (False, Some ErrNilProof)
           | Some pr \<Rightarrow>
               (let hashFunc = (case hashFunc of None \<Rightarrow> defaultHashFunc | Some f \<Rightarrow> f)
                in case Serialize db of
                     (data, Some e) \<Rightarrow> (False, Some e)
                   | (data, None) \<Rightarrow>
                       (case hashFunc data of
                          (hash, Some e) \<Rightarrow> (False, Some e)
                        | (hash, None) \<Rightarrow>
                            (case verifyLoop hashFunc (Siblings pr) (Path pr) hash of
                               (hash, Some e) \<Rightarrow> (False, Some e)
                             | (hash, None) \<Rightarrow> (hash = rootHash, None))))))"

text \<open>The method \<^verbatim>\<open>(m *MerkleTree) Verify\<close>.\<close>

definition MerkleTree_Verify ::
  "HashFuncType \<Rightarrow> MerkleTree \<Rightarrow> DataBlock option \<Rightarrow> Proof option \<Rightarrow> bool \<times> error option"
where
  "MerkleTree_Verify defaultHashFunc m dataBlock prf =
     Verify defaultHashFunc dataBlock prf (Root m) (HashFunc (Config m))"

subsection \<open>Construction\<close>

text \<open>
  \<^verbatim>\<open>New\<close> returns the pair \<^verbatim>\<open>(m, err)\<close>; \<open>None\<close> in the first component is a nil tree. Its
  first argument is \<^verbatim>\<open>defaultHashFunc\<close>, its second the random source.
\<close>

definition newConfig :: Config where
  "newConfig = \<lparr>HashFunc = None, NumRoutines = 0, Mode = 0, NoDuplicates = False,
                SortLeaves = False, SortPairs = False\<rparr>"

definition New ::
  "HashFuncType \<Rightarrow> entropy \<Rightarrow> Config option \<Rightarrow> DataBlock list \<Rightarrow>
   (MerkleTree option \<times> error option) option"
where
  "New defaultHashFunc rd config blocks =
     (if length blocks \<le> 1 then Some (None, Some ErrTooFewBlocks)
      else
        (let config = (case config of None \<Rightarrow> newConfig | Some c \<Rightarrow> c);
             config = (if HashFunc config = None
                       then config\<lparr>HashFunc := Some defaultHashFunc\<rparr> else config);
             config = (if Mode config = 0 then config\<lparr>Mode := ModeProofGen\<rparr> else config);
             m = \<lparr>Config = config, leafMap = Map.empty, tree = [], Root = [], Leaves = [],
                  Proofs = [], Depth = calTreeDepth (length blocks)\<rparr>
         in case leafGen m blocks of
              (leaves, Some e) \<Rightarrow> Some (Some (m\<lparr>Leaves := leaves\<rparr>), Some e)
            | (leaves, None) \<Rightarrow>
                (let m = m\<lparr>Leaves := leaves\<rparr>
                 in if Mode (Config m) = ModeProofGen
                    then (case proofGen rd m of
                            None \<Rightarrow> None
                          | Some (m, err) \<Rightarrow> Some (Some m, err))
                    else if Mode (Config m) = ModeTreeBuild
                    then (case treeBuild rd m of
                            None \<Rightarrow> None
                          | Some (m, err) \<Rightarrow> Some (Some m, err))
                    else if Mode (Config m) = ModeProofGenAndTreeBuild
                    then (case treeBuild rd m of
                            None \<Rightarrow> None
                          | Some (m, Some e) \<Rightarrow> Some (Some m, Some e)
                          | Some (m, None) \<Rightarrow>
                              (let m = initProofs m
                               in case updateProofsFromTree (tree m) (Proofs m) of
                                    None \<Rightarrow> None
                                  | Some ps \<Rightarrow> Some (Some (m\<lparr>Proofs := ps\<rparr>), None)))
                    else Some (None, Some ErrInvalidMode))))"

subsection \<open>The algorithm of the specification, and inputs for checking\<close>

text \<open>
  Verification as the specification words it: the accumulator starts as the serialized
  block, with no hashing applied; sibling \<open>i\<close> is combined according to bit \<open>i\<close> of the
  path (accumulator on the left when the bit is set); the result is equality with the root.
\<close>

fun specAccumulate :: "HashFuncType \<Rightarrow> bytes list \<Rightarrow> 32 word \<Rightarrow> nat \<Rightarrow> bytes \<Rightarrow> bytes \<times> error option" where
  "specAccumulate hashFunc [] path i acc = (acc, None)"
| "specAccumulate hashFunc (n # ns) path i acc =
     (case (if bit path i then hashFunc (acc @ n) else hashFunc (n @ acc)) of
        (acc, Some e) \<Rightarrow> (acc, Some e)
      | (acc, None) \<Rightarrow> specAccumulate hashFunc ns path (i + 1) acc)"

definition specVerify :: "HashFuncType \<Rightarrow> DataBlock \<Rightarrow> Proof \<Rightarrow> bytes \<Rightarrow> bool \<times> error option" where
  "specVerify hashFunc dataBlock prf rootHash =
     (case Serialize dataBlock of
        (data, Some e) \<Rightarrow> (False, Some e)
      | (data, None) \<Rightarrow>
          (case specAccumulate hashFunc (Siblings prf) (Path prf) 0 data of
             (acc, Some e) \<Rightarrow> (False, Some e)
           | (acc, None) \<Rightarrow> (acc = rootHash, None)))"

text \<open>A block that serializes to the given bytes, and one whose serialization fails.\<close>

definition block :: "bytes \<Rightarrow> DataBlock" where
  "block data = DataBlock (data, None)"

definition failingBlock :: DataBlock where
  "failingBlock = DataBlock ([], Some (ErrExternal 0))"

text \<open>A hash function that never fails, and a small injective one: the length, then the input.\<close>

definition totalHash :: "(bytes \<Rightarrow> bytes) \<Rightarrow> HashFuncType" where
  "totalHash H x = (H x, None)"

definition lengthHash :: "bytes \<Rightarrow> bytes" where
  "lengthHash x = of_nat (length x) # x"

text \<open>A configuration with the given hash function and mode, every policy flag off.\<close>

definition plainConfig :: "HashFuncType \<Rightarrow> int \<Rightarrow> Config" where
  "plainConfig h md = \<lparr>HashFunc = Some h, NumRoutines = 0, Mode = md, NoDuplicates = False,
                        SortLeaves = False, SortPairs = False\<rparr>"

text \<open>A random source whose every read yields 32 copies of one byte.\<close>

definition constEntropy :: "8 word \<Rightarrow> entropy" where
  "constEntropy v k = (replicate 32 v, None)"

text \<open>The configuration \<^verbatim>\<open>New\<close> works with: a nil configuration is a fresh one.\<close>

definition givenConfig :: "Config option \<Rightarrow> Config" where
  "givenConfig config = (case config of None \<Rightarrow> newConfig | Some c \<Rightarrow> c)"

text \<open>The configuration of the tree that \<^verbatim>\<open>New\<close> builds, after its defaults are filled in.\<close>

definition effectiveConfig :: "HashFuncType \<Rightarrow> Config option \<Rightarrow> Config" where
  "effectiveConfig dflt config =
     (let c = givenConfig config;
          c = (if HashFunc c = None then c\<lparr>HashFunc := Some dflt\<rparr> else c)
      in if Mode c = 0 then c\<lparr>Mode := ModeProofGen\<rparr> else c)"

text \<open>The mode values that \<^verbatim>\<open>New\<close> recognizes.\<close>

definition validMode :: "int \<Rightarrow> bool" where
  "validMode md \<longleftrightarrow> md = ModeProofGen \<or> md = ModeTreeBuild \<or> md = ModeProofGenAndTreeBuild"

subsection \<open>Notions used in the proofs\<close>

text \<open>
  What \<^verbatim>\<open>updatePairProof\<close> does to one proof: a leaf in the left half of a pair gets the
  right element as sibling and its path bit set, a leaf in the right half gets the left
  element and no bit.
\<close>

definition addLeft :: "bytes \<Rightarrow> nat \<Rightarrow> Proof \<Rightarrow> Proof" where
  "addLeft sibling step p =
     p\<lparr>Siblings := Siblings p @ [sibling], Path := Path p + push_bit step 1\<rparr>"

definition addRight :: "bytes \<Rightarrow> Proof \<Rightarrow> Proof" where
  "addRight sibling p = p\<lparr>Siblings := Siblings p @ [sibling]\<rparr>"

text \<open>What level \<open>step\<close> with the nodes \<open>buf\<close> adds to the proof of leaf \<open>k\<close>.\<close>

definition levelUpdate :: "bytes list \<Rightarrow> nat \<Rightarrow> nat \<Rightarrow> Proof \<Rightarrow> Proof" where
  "levelUpdate buf step k p =
     (let idx = k div 2 ^ step
      in if even idx then addLeft (buf ! (idx + 1)) step p else addRight (buf ! (idx - 1)) p)"

text \<open>The proof of leaf \<open>k\<close> after the first \<open>j\<close> levels of the tree \<open>t\<close>.\<close>

fun proofOfLeaf :: "bytes list list \<Rightarrow> nat \<Rightarrow> nat \<Rightarrow> Proof" where
  "proofOfLeaf t k 0 = \<lparr>Siblings = [], Path = 0\<rparr>"
| "proofOfLeaf t k (Suc j) = levelUpdate (t ! j) j k (proofOfLeaf t k j)"

text \<open>A proof with \<open>s\<close> siblings whose path has no bit set from position \<open>s\<close> on.\<close>

definition proofAtLevel :: "nat \<Rightarrow> Proof \<Rightarrow> bool" where
  "proofAtLevel s p \<longleftrightarrow> length (Siblings p) = s \<and> unat (Path p) < 2 ^ s"

section \<open>Properties\<close>

subsection \<open>Tree depth\<close>

lemma calTreeDepth_ceillog2 [code]: "calTreeDepth n = ceillog2 n"
proof (cases "n = 0")
  case True
  then show ?thesis by (simp add: calTreeDepth_def log_def)
next
  case False
  then have "0 \<le> log 2 (real n)" by simp
  then have "0 \<le> \<lfloor>log 2 (real n)\<rfloor>" by simp
  then show ?thesis
    using False by (simp add: calTreeDepth_def ceillog2_def ceiling_altdef Let_def nat_add_distrib)
qed

lemma calTreeDepth_eqI: "n \<le> 2 ^ d \<Longrightarrow> 2 ^ d < 2 * n \<Longrightarrow> calTreeDepth n = d"
  by (simp add: calTreeDepth_ceillog2 ceillog2_eqI)

lemma calTreeDepth_power: "calTreeDepth (2 ^ k) = k"
  by (simp add: calTreeDepth_ceillog2)



lemma calTreeDepth_pos: "2 \<le> n \<Longrightarrow> 1 \<le> calTreeDepth n"
  using ceillog2_ge_iff [of n 1] by (simp add: calTreeDepth_ceillog2)

subsection \<open>What the building functions leave unchanged\<close>

lemma Config_initProofs [simp]: "Config (initProofs m) = Config m"
  by (simp add: initProofs_def)

lemma proofGen_fields:
  assumes "proofGen rd m = Some (m', err)"
  shows "Depth m' = Depth m \<and> Config m' = Config m \<and> Leaves m' = Leaves m"
  using assms
  by (auto simp: proofGen_def Let_def initProofs_def split: option.splits prod.splits if_splits)

lemma treeBuild_fields:
  assumes "treeBuild rd m = Some (m', err)"
  shows "Depth m' = Depth m \<and> Config m' = Config m \<and> Leaves m' = Leaves m \<and> Proofs m' = Proofs m"
  using assms
  by (auto simp: treeBuild_def Let_def split: option.splits prod.splits if_splits)

lemma New_fields:
  assumes "New dflt rd config blocks = Some (Some m, err)"
  shows "Depth m = calTreeDepth (length blocks) \<and> 2 \<le> length blocks"
  using assms
  by (auto simp: New_def Let_def initProofs_def split: option.splits prod.splits if_splits
      dest!: proofGen_fields treeBuild_fields)

lemma built_caseD:
  "(case r of Some (Some m, None) \<Rightarrow> P m | _ \<Rightarrow> False) \<Longrightarrow> \<exists>m. r = Some (Some m, None) \<and> P m"
  by (auto split: option.splits prod.splits)




subsection \<open>Configuration errors\<close>

lemma returned_caseD:
  "(case r of Some (Some m, e) \<Rightarrow> P m e | _ \<Rightarrow> False) \<Longrightarrow> \<exists>m e. r = Some (Some m, e) \<and> P m e"
  by (auto split: option.splits prod.splits)

lemma serializeBlocks_ok_iff:
  "snd (serializeBlocks bs) = None \<longleftrightarrow> (\<forall>b\<in>set bs. snd (Serialize b) = None)"
  by (induction bs) (auto split: prod.splits option.splits)

lemma serializeBlocks_error: "snd (serializeBlocks bs) = Some e \<Longrightarrow> fst (serializeBlocks bs) = []"
  by (cases bs) (auto split: prod.splits option.splits)

lemma leafGen_error: "snd (serializeBlocks bs) = Some e \<Longrightarrow> leafGen m bs = ([], Some e)"
  by (auto simp: leafGen_def split: prod.splits option.splits)

lemma leafGen_ok: "snd (serializeBlocks bs) = None \<Longrightarrow> snd (leafGen m bs) = None"
  by (auto simp: leafGen_def split: prod.splits option.splits)


lemmas mode_defs = ModeProofGen_def ModeTreeBuild_def ModeProofGenAndTreeBuild_def

lemma default_mode_noop: "(if Mode c = 0 then c\<lparr>Mode := ModeProofGen\<rparr> else c) = (c :: Config)"
  by (cases c) (simp add: ModeProofGen_def)

lemma effectiveConfig_simps [simp]:
  "Mode (effectiveConfig dflt config) = Mode (givenConfig config)"
  "NoDuplicates (effectiveConfig dflt config) = NoDuplicates (givenConfig config)"
  "SortLeaves (effectiveConfig dflt config) = SortLeaves (givenConfig config)"
  "SortPairs (effectiveConfig dflt config) = SortPairs (givenConfig config)"
  "HashFunc (effectiveConfig dflt config) \<noteq> None"
  by (auto simp: effectiveConfig_def Let_def default_mode_noop)

lemma New_eq:
  "New dflt rd config blocks =
     (if length blocks \<le> 1 then Some (None, Some ErrTooFewBlocks)
      else
        (let m = \<lparr>Config = effectiveConfig dflt config, leafMap = Map.empty, tree = [], Root = [],
                  Leaves = [], Proofs = [], Depth = calTreeDepth (length blocks)\<rparr>
         in case leafGen m blocks of
              (leaves, Some e) \<Rightarrow> Some (Some (m\<lparr>Leaves := leaves\<rparr>), Some e)
            | (leaves, None) \<Rightarrow>
                (let m = m\<lparr>Leaves := leaves\<rparr>
                 in if Mode (Config m) = ModeProofGen
                    then (case proofGen rd m of
                            None \<Rightarrow> None
                          | Some (m, err) \<Rightarrow> Some (Some m, err))
                    else if Mode (Config m) = ModeTreeBuild
                    then (case treeBuild rd m of
                            None \<Rightarrow> None
                          | Some (m, err) \<Rightarrow> Some (Some m, err))
                    else if Mode (Config m) = ModeProofGenAndTreeBuild
                    then (case treeBuild rd m of
                            None \<Rightarrow> None
                          | Some (m, Some e) \<Rightarrow> Some (Some m, Some e)
                          | Some (m, None) \<Rightarrow>
                              (let m = initProofs m
                               in case updateProofsFromTree (tree m) (Proofs m) of
                                    None \<Rightarrow> None
                                  | Some ps \<Rightarrow> Some (Some (m\<lparr>Proofs := ps\<rparr>), None)))
                    else Some (None, Some ErrInvalidMode))))"
  unfolding New_def effectiveConfig_def Let_def default_mode_noop givenConfig_def
  by (rule refl)

lemma New_few: "length blocks \<le> 1 \<Longrightarrow> New dflt rd config blocks = Some (None, Some ErrTooFewBlocks)"
  by (simp add: New_def)

lemma New_leaf_error:
  assumes "2 \<le> length blocks" and "snd (serializeBlocks blocks) = Some e"
  shows "\<exists>m. New dflt rd config blocks = Some (Some m, Some e) \<and>
             Leaves m = [] \<and> tree m = [] \<and> Root m = [] \<and> Proofs m = []"
  using assms by (simp add: New_eq Let_def leafGen_error)

lemma leafGen_ok_eq:
  "snd (serializeBlocks bs) = None \<Longrightarrow> leafGen m bs = (fst (leafGen m bs), None)"
  using leafGen_ok [of bs m] by (cases "leafGen m bs") simp

lemma New_invalid_mode:
  assumes "2 \<le> length blocks" and "snd (serializeBlocks blocks) = None"
    and "\<not> validMode (Mode (givenConfig config))"
  shows "New dflt rd config blocks = Some (None, Some ErrInvalidMode)"
  using assms(1,3)
  by (subst New_eq, simp only: Let_def, subst leafGen_ok_eq [OF assms(2)])
     (simp add: validMode_def)

lemma New_valid_mode:
  assumes "2 \<le> length blocks" and "validMode (Mode (givenConfig config))"
  shows "New dflt rd config blocks \<noteq> Some (None, e)"
proof (cases "snd (serializeBlocks blocks)")
  case (Some e')
  from New_leaf_error [OF assms(1) Some, of dflt rd config] show ?thesis by auto
next
  case None
  show ?thesis
    using assms
    by (subst New_eq, simp only: Let_def, subst leafGen_ok_eq [OF None])
       (auto simp: validMode_def mode_defs split: option.splits prod.splits)
qed

text \<open>
  C7 (as amended): \<open>New\<close> returns a nil tree only with a configuration error: the error of
  too few blocks exactly when fewer than two blocks are supplied, and the error of an invalid
  mode exactly when at least two blocks are supplied, the mode is not a recognized value and
  every block serializes. When a block fails to serialize, whatever the mode, \<open>New\<close> returns
  the serialization error with a tree that holds the configuration and the depth, and no
  leaves, levels, root or proofs.
\<close>

theorem New_nil_tree_iff:
  "(New dflt rd config blocks = Some (None, Some ErrTooFewBlocks) \<longleftrightarrow> length blocks \<le> 1) \<and>
   (New dflt rd config blocks = Some (None, Some ErrInvalidMode) \<longleftrightarrow>
      2 \<le> length blocks \<and> \<not> validMode (Mode (givenConfig config)) \<and>
      (\<forall>b\<in>set blocks. snd (Serialize b) = None)) \<and>
   (\<forall>e. New dflt rd config blocks = Some (None, e) \<longrightarrow>
      e = Some ErrTooFewBlocks \<or> e = Some ErrInvalidMode) \<and>
   (\<forall>e. 2 \<le> length blocks \<and> snd (serializeBlocks blocks) = Some e \<longrightarrow>
      (\<exists>m. New dflt rd config blocks = Some (Some m, Some e) \<and>
           Leaves m = [] \<and> tree m = [] \<and> Root m = [] \<and> Proofs m = []))"
proof -
  consider (few) "length blocks \<le> 1"
    | (bad) e where "2 \<le> length blocks" "snd (serializeBlocks blocks) = Some e"
    | (inv) "2 \<le> length blocks" "snd (serializeBlocks blocks) = None"
        "\<not> validMode (Mode (givenConfig config))"
    | (val) "2 \<le> length blocks" "snd (serializeBlocks blocks) = None"
        "validMode (Mode (givenConfig config))"
    by (cases "snd (serializeBlocks blocks)") fastforce+
  then show ?thesis
  proof cases
    case few
    then show ?thesis using New_few [OF few, of dflt rd config] by auto
  next
    case bad
    from New_leaf_error [OF bad, of dflt rd config] bad serializeBlocks_ok_iff [of blocks]
    show ?thesis by auto
  next
    case inv
    from New_invalid_mode [OF inv, of dflt rd] inv serializeBlocks_ok_iff [of blocks]
    show ?thesis by auto
  next
    case val
    from New_valid_mode [OF val(1,3), of dflt rd] val show ?thesis by auto
  qed
qed


theorem New_nil_tree_iff_witness:
  "New (totalHash lengthHash) (constEntropy 0) None [block [97]] =
     Some (None, Some ErrTooFewBlocks) \<and>
   New (totalHash lengthHash) (constEntropy 0) (Some (plainConfig (totalHash lengthHash) 7))
     [block [97], block [98]] = Some (None, Some ErrInvalidMode) \<and>
   (\<exists>m. New (totalHash lengthHash) (constEntropy 0) (Some (plainConfig (totalHash lengthHash) 7))
          [block [97], failingBlock] = Some (Some m, Some (ErrExternal 0)) \<and>
        Leaves m = [] \<and> tree m = [] \<and> Root m = [] \<and> Proofs m = [])"
proof (intro conjI)
  show "New (totalHash lengthHash) (constEntropy 0) None [block [97]] =
          Some (None, Some ErrTooFewBlocks)"
    using New_nil_tree_iff [of "totalHash lengthHash" "constEntropy 0" None "[block [97]]"]
    by simp
  show "New (totalHash lengthHash) (constEntropy 0) (Some (plainConfig (totalHash lengthHash) 7))
          [block [97], block [98]] = Some (None, Some ErrInvalidMode)"
    using New_nil_tree_iff [of "totalHash lengthHash" "constEntropy 0"
        "Some (plainConfig (totalHash lengthHash) 7)" "[block [97], block [98]]"]
    by (simp add: validMode_def givenConfig_def plainConfig_def mode_defs block_def)
  have "2 \<le> length [block [97], failingBlock] \<and>
        snd (serializeBlocks [block [97], failingBlock]) = Some (ErrExternal 0)"
    by (simp add: block_def failingBlock_def)
  then show "\<exists>m. New (totalHash lengthHash) (constEntropy 0)
          (Some (plainConfig (totalHash lengthHash) 7))
          [block [97], failingBlock] = Some (Some m, Some (ErrExternal 0)) \<and>
        Leaves m = [] \<and> tree m = [] \<and> Root m = [] \<and> Proofs m = []"
    using New_nil_tree_iff [of "totalHash lengthHash" "constEntropy 0"
        "Some (plainConfig (totalHash lengthHash) 7)" "[block [97], failingBlock]"]
    by blast
qed

text \<open>
  The claim as stated fails on two blocks of which the second does not serialize: with the
  unrecognized mode 7 the result is not a nil tree with a configuration error, and with the
  recognized mode \<open>ModeProofGen\<close> the construction fails with nothing built.
\<close>

theorem New_config_error_counterexample:
  "(\<exists>m e. New (totalHash lengthHash) (constEntropy 0)
            (Some (plainConfig (totalHash lengthHash) 7)) [block [97], failingBlock] =
            Some (Some m, e) \<and>
          e = Some (ErrExternal 0) \<and> Depth m = 1) \<and>
   (\<exists>m e. New (totalHash lengthHash) (constEntropy 0)
            (Some (plainConfig (totalHash lengthHash) ModeProofGen)) [block [97], failingBlock] =
            Some (Some m, e) \<and>
          e = Some (ErrExternal 0) \<and>
          Leaves m = [] \<and> tree m = [] \<and> Root m = [] \<and> Proofs m = [])"
  by (intro conjI; rule returned_caseD; code_simp)

subsection \<open>Loop invariants\<close>

lemma forRange_invariant:
  assumes step: "\<And>j t t'. I j t \<Longrightarrow> j < n \<Longrightarrow> body j t = Some t' \<Longrightarrow> I (j + d) t'"
    and d: "0 < d"
  shows "forRange i n d body s = Some s' \<Longrightarrow> I i s \<Longrightarrow> \<exists>j. n \<le> j \<and> I j s'"
proof (induction "n - i" arbitrary: i s rule: less_induct)
  case less
  show ?case
  proof (cases "i < n \<and> 0 < d")
    case True
    with less.prems(1) obtain t where t: "body i s = Some t" "forRange (i + d) n d body t = Some s'"
      by (subst (asm) forRange.simps) (auto split: option.splits)
    have I': "I (i + d) t" using step [OF less.prems(2) _ t(1)] True by simp
    have "n - (i + d) < n - i" using True by linarith
    from less.hyps [OF this t(2) I'] show ?thesis .
  next
    case False
    with less.prems(1) have "s' = s" by (subst (asm) forRange.simps) auto
    with False less.prems(2) d show ?thesis by (intro exI [of _ i]) auto
  qed
qed

lemma forLoop_invariant:
  assumes step: "\<And>j t t'. I j t \<Longrightarrow> j < n \<Longrightarrow> body j t = Some (t', None) \<Longrightarrow> I (j + d) t'"
    and d: "0 < d"
  shows "forLoop i n d body s = Some (s', None) \<Longrightarrow> I i s \<Longrightarrow> \<exists>j. n \<le> j \<and> I j s'"
proof (induction "n - i" arbitrary: i s rule: less_induct)
  case less
  show ?case
  proof (cases "i < n \<and> 0 < d")
    case True
    with less.prems(1) obtain t where t: "body i s = Some (t, None)"
        "forLoop (i + d) n d body t = Some (s', None)"
      by (subst (asm) forLoop.simps) (auto split: option.splits prod.splits)
    have I': "I (i + d) t" using step [OF less.prems(2) _ t(1)] True by simp
    have "n - (i + d) < n - i" using True by linarith
    from less.hyps [OF this t(2) I'] show ?thesis .
  next
    case False
    with less.prems(1) have "s' = s" by (subst (asm) forLoop.simps) auto
    with False less.prems(2) d show ?thesis by (intro exI [of _ i]) auto
  qed
qed

lemma forRange_update:
  assumes "forRange a b 1
             (\<lambda>i ps. if i < length ps \<and> c then Some (ps[i := f (ps ! i)]) else None) ps = Some ps'"
  shows "length ps' = length ps \<and>
         (\<forall>k<length ps. ps' ! k = (if a \<le> k \<and> k < b then f (ps ! k) else ps ! k))"
proof -
  let ?I = "\<lambda>j t. a \<le> j \<and> (j \<le> b \<or> j = a) \<and> length t = length ps \<and>
              (\<forall>k<length ps. t ! k = (if a \<le> k \<and> k < j then f (ps ! k) else ps ! k))"
  have "\<exists>j. b \<le> j \<and> ?I j ps'"
  proof (rule forRange_invariant [where I = ?I, OF _ _ assms], goal_cases)
    case (1 j t t')
    then have t': "t' = t[j := f (t ! j)]" and j: "j < length t" by (auto split: if_splits)
    from 1(1) j have "t ! j = ps ! j" by simp
    with 1(1,2) t' j show ?case by (auto simp: nth_list_update)
  qed auto
  then obtain j where j: "b \<le> j" and I: "?I j ps'" by blast
  show ?thesis
  proof (cases "a \<le> b")
    case True
    with j I have "j = b" by auto
    with I show ?thesis by simp
  next
    case False
    with j I have "j = a" by auto
    with I False show ?thesis by auto
  qed
qed

text \<open>Two bodies that agree on the states of a run give the same run.\<close>

lemma forLoop_cong_invariant:
  assumes same: "\<And>j t. I j t \<Longrightarrow> j < n \<Longrightarrow> f j t = g j t"
    and step: "\<And>j t t'. I j t \<Longrightarrow> j < n \<Longrightarrow> f j t = Some (t', None) \<Longrightarrow> I (j + d) t'"
  shows "I i s \<Longrightarrow> forLoop i n d f s = forLoop i n d g s"
proof (induction "n - i" arbitrary: i s rule: less_induct)
  case less
  show ?case
  proof (cases "i < n \<and> 0 < d")
    case True
    then have i: "i < n" and d: "0 < d" by simp_all
    note fg = same [OF less.prems i]
    show ?thesis
    proof (cases "f i s")
      case None
      with fg True show ?thesis by (subst forLoop.simps, subst (2) forLoop.simps) simp
    next
      case (Some r)
      obtain t e where r: "r = (t, e)" by (cases r)
      show ?thesis
      proof (cases e)
        case None
        from step [OF less.prems i] Some r None have I': "I (i + d) t" by simp
        have "n - (i + d) < n - i" using i d by linarith
        from less.hyps [OF this I'] Some r None fg True show ?thesis
          by (subst forLoop.simps, subst (2) forLoop.simps) simp
      next
        case (Some e')
        with \<open>f i s = Some r\<close> r fg True show ?thesis
          by (subst forLoop.simps, subst (2) forLoop.simps) simp
      qed
    qed
  next
    case False
    show ?thesis
      by (subst forLoop.simps, subst (2) forLoop.simps) (simp only: False if_False)
  qed
qed

subsection \<open>The effect of one level on the proofs\<close>

lemma updatePairProof_effect:
  assumes "updatePairProof buf idx batch step ps = Some ps'"
  shows "length ps' = length ps \<and>
         (\<forall>k<length ps. ps' ! k =
            (if idx * batch \<le> k \<and> k < idx * batch + batch then addLeft (buf ! (idx + 1)) step (ps ! k)
             else if idx * batch + batch \<le> k \<and> k < idx * batch + batch + batch
                  then addRight (buf ! idx) (ps ! k)
             else ps ! k))"
proof -
  from assms obtain ps1 where
    one: "forRange (idx * batch) (min (idx * batch + batch) (length ps)) 1
            (\<lambda>i ps. if i < length ps \<and> idx + 1 < length buf
                     then Some (ps[i := addLeft (buf ! (idx + 1)) step (ps ! i)]) else None) ps
          = Some ps1"
    and two: "forRange (idx * batch + batch) (min (idx * batch + batch + batch) (length ps1)) 1
            (\<lambda>i ps. if i < length ps \<and> idx < length buf
                     then Some (ps[i := addRight (buf ! idx) (ps ! i)]) else None) ps1
          = Some ps'"
    unfolding updatePairProof_def Let_def addLeft_def addRight_def
    by (auto split: option.splits)
  note a = forRange_update [where f = "addLeft (buf ! (idx + 1)) step" and c = "idx + 1 < length buf", OF one]
  note b = forRange_update [where f = "addRight (buf ! idx)" and c = "idx < length buf", OF two]
  have len: "length ps1 = length ps" "length ps' = length ps1" using a b by simp_all
  show ?thesis
  proof (intro conjI allI impI)
    show "length ps' = length ps" using len by simp
  next
    fix k assume k: "k < length ps"
    from a k have k1: "ps1 ! k =
        (if idx * batch \<le> k \<and> k < min (idx * batch + batch) (length ps)
         then addLeft (buf ! (idx + 1)) step (ps ! k) else ps ! k)"
      by blast
    from b k len have k2: "ps' ! k =
        (if idx * batch + batch \<le> k \<and> k < min (idx * batch + batch + batch) (length ps1)
         then addRight (buf ! idx) (ps1 ! k) else ps1 ! k)"
      by simp
    show "ps' ! k =
            (if idx * batch \<le> k \<and> k < idx * batch + batch then addLeft (buf ! (idx + 1)) step (ps ! k)
             else if idx * batch + batch \<le> k \<and> k < idx * batch + batch + batch
                  then addRight (buf ! idx) (ps ! k)
             else ps ! k)"
      unfolding k2 k1 using k len by simp
  qed
qed


lemma levelUpdate_left:
  assumes "even j" and "j * 2 ^ step \<le> k" and "k < j * 2 ^ step + 2 ^ step"
  shows "levelUpdate buf step k p = addLeft (buf ! (j + 1)) step p"
proof -
  have "k div 2 ^ step = j"
    using assms(2,3) by (intro div_nat_eqI) (simp_all add: mult.commute)
  with assms(1) show ?thesis by (simp add: levelUpdate_def)
qed

lemma levelUpdate_right:
  assumes "even j" and "j * 2 ^ step + 2 ^ step \<le> k" and "k < j * 2 ^ step + 2 ^ step + 2 ^ step"
  shows "levelUpdate buf step k p = addRight (buf ! j) p"
proof -
  have "k div 2 ^ step = j + 1"
    using assms(2,3) by (intro div_nat_eqI) (simp_all add: mult.commute)
  with assms(1) show ?thesis by (simp add: levelUpdate_def)
qed

lemma updateProofs_effect:
  assumes "updateProofs buf bufLen step ps = Some ps'"
  shows "length ps' = length ps \<and>
         (\<forall>k<length ps. k < bufLen * 2 ^ step \<longrightarrow> ps' ! k = levelUpdate buf step k (ps ! k))"
proof -
  let ?I = "\<lambda>j t. even j \<and> length t = length ps \<and>
              (\<forall>k<length ps. t ! k =
                 (if k < j * 2 ^ step then levelUpdate buf step k (ps ! k) else ps ! k))"
  from assms have run:
    "forRange 0 bufLen 2 (\<lambda>i ps. updatePairProof buf i (2 ^ step) step ps) ps = Some ps'"
    by (simp add: updateProofs_def Let_def)
  have "\<exists>j. bufLen \<le> j \<and> ?I j ps'"
  proof (rule forRange_invariant [where I = ?I, OF _ _ run], goal_cases)
    case (1 j t t')
    note eff = updatePairProof_effect [OF 1(3)]
    from 1(1) have ev: "even j" and len: "length t = length ps" by simp_all
    have "t' ! k = (if k < (j + 2) * 2 ^ step then levelUpdate buf step k (ps ! k) else ps ! k)"
      if k: "k < length ps" for k
    proof -
      from 1(1) k have tk: "t ! k = (if k < j * 2 ^ step then levelUpdate buf step k (ps ! k) else ps ! k)"
        by blast
      from eff k len have t'k: "t' ! k =
            (if j * 2 ^ step \<le> k \<and> k < j * 2 ^ step + 2 ^ step then addLeft (buf ! (j + 1)) step (t ! k)
             else if j * 2 ^ step + 2 ^ step \<le> k \<and> k < j * 2 ^ step + 2 ^ step + 2 ^ step
                  then addRight (buf ! j) (t ! k)
             else t ! k)"
        by simp
      have split: "(j + 2) * 2 ^ step = j * 2 ^ step + 2 ^ step + (2 ^ step :: nat)"
        by (simp add: algebra_simps)
      consider (old) "k < j * 2 ^ step"
        | (left) "j * 2 ^ step \<le> k" "k < j * 2 ^ step + 2 ^ step"
        | (right) "j * 2 ^ step + 2 ^ step \<le> k" "k < j * 2 ^ step + 2 ^ step + 2 ^ step"
        | (later) "j * 2 ^ step + 2 ^ step + 2 ^ step \<le> k"
        by linarith
      then show ?thesis
      proof cases
        case old
        then show ?thesis unfolding t'k tk split by simp
      next
        case left
        then show ?thesis unfolding t'k tk split
          by (simp add: levelUpdate_left [OF ev left])
      next
        case right
        then show ?thesis unfolding t'k tk split
          by (simp add: levelUpdate_right [OF ev right])
      next
        case later
        then show ?thesis unfolding t'k tk split by simp
      qed
    qed
    with ev len eff show ?case by simp
  qed auto
  then obtain j where j: "bufLen \<le> j" and I: "?I j ps'" by blast
  have "k < j * 2 ^ step" if "k < bufLen * 2 ^ step" for k
  proof -
    have "bufLen * 2 ^ step \<le> j * (2 ^ step :: nat)" using j by simp
    with that show ?thesis by linarith
  qed
  with I show ?thesis by simp
qed


lemma unat_two_power:
  assumes "s < 32"
  shows "unat (2 ^ s :: 32 word) = 2 ^ s"
proof -
  have lt: "(2::nat) ^ s < 2 ^ LENGTH(32)"
    by (rule power_strict_increasing) (use assms in simp_all)
  have "unat (of_nat (2 ^ s) :: 32 word) = 2 ^ s"
    by (simp only: unat_of_nat mod_less [OF lt])
  moreover have "(of_nat (2 ^ s) :: 32 word) = 2 ^ s" by simp
  ultimately show ?thesis by (simp only:)
qed

lemma path_bit_bound:
  fixes p :: "32 word"
  assumes "unat p < 2 ^ s"
  shows "unat (p + push_bit s 1) < 2 ^ Suc s"
proof (cases "s < 32")
  case True
  have "unat (p + 2 ^ s) \<le> unat p + unat (2 ^ s :: 32 word)"
    by (simp add: unat_word_ariths)
  with assms unat_two_power [OF True] show ?thesis by simp
next
  case False
  then have z: "p + push_bit s 1 = p" by simp
  have "(2 :: nat) ^ s < 2 ^ Suc s" by simp
  with assms show ?thesis unfolding z by linarith
qed

lemma proofAtLevel_levelUpdate:
  assumes "proofAtLevel s p"
  shows "proofAtLevel (Suc s) (levelUpdate buf s k p)"
proof -
  have "unat (Path p) < 2 ^ Suc s"
    using assms by (simp add: proofAtLevel_def)
  with assms path_bit_bound [of "Path p" s] show ?thesis
    by (simp add: proofAtLevel_def levelUpdate_def addLeft_def addRight_def Let_def)
qed

lemma updateProofs_level:
  assumes "updateProofs buf bufLen step ps = Some ps'"
    and "\<forall>p\<in>set ps. proofAtLevel step p"
    and "length ps \<le> bufLen * 2 ^ step"
  shows "length ps' = length ps \<and> (\<forall>p\<in>set ps'. proofAtLevel (Suc step) p)"
proof -
  note eff = updateProofs_effect [OF assms(1)]
  have "proofAtLevel (Suc step) (ps' ! k)" if "k < length ps'" for k
  proof -
    from that eff have k: "k < length ps" by simp
    with assms(3) have "k < bufLen * 2 ^ step" by linarith
    with eff k have "ps' ! k = levelUpdate buf step k (ps ! k)" by blast
    moreover from assms(2) k have "proofAtLevel step (ps ! k)" by simp
    ultimately show ?thesis by (simp add: proofAtLevel_levelUpdate)
  qed
  with eff show ?thesis by (auto simp: in_set_conv_nth)
qed

subsection \<open>Level lengths\<close>

lemma fixOdd_length:
  assumes "fixOdd cfg rd k buf p = Some ((buf', p', None), k')"
  shows "even p' \<and> p \<le> p' \<and> (p \<le> length buf \<longrightarrow> p' \<le> length buf') \<and>
         (p = length buf \<longrightarrow> p' = length buf')"
  using assms
  by (auto simp: fixOdd_def Let_def split: if_splits option.splits prod.splits sum.splits)

lemma half_cover:
  fixes n p p' step :: nat
  assumes "n \<le> p * 2 ^ (step - 1)" and "even p" and "1 \<le> step" and "p div 2 \<le> p'"
  shows "n \<le> p' * 2 ^ step"
proof -
  from assms(2) obtain h where p: "p = 2 * h" by (elim evenE)
  from assms(3) obtain s where step: "step = Suc s" by (cases step) auto
  have "n \<le> h * 2 ^ step" using assms(1) by (simp add: p step)
  also have "h \<le> p'" using assms(4) by (simp add: p)
  then have "h * 2 ^ step \<le> p' * 2 ^ step" by simp
  finally show ?thesis .
qed

subsection \<open>Proofs built by proofGen\<close>

lemma proofGenStep_level:
  assumes run: "proofGenStep cfg rd step (buf, prevLen, k, ps) = Some ((buf', prevLen', k', ps'), None)"
    and lvl: "\<forall>p\<in>set ps. proofAtLevel step p"
    and cover: "length ps \<le> prevLen * 2 ^ (step - 1)"
    and ev: "even prevLen" and pos: "1 \<le> step"
  shows "length ps' = length ps \<and> (\<forall>p\<in>set ps'. proofAtLevel (Suc step) p) \<and>
         length ps \<le> prevLen' * 2 ^ step \<and> even prevLen'"
proof -
  from run obtain b1 where
    fx: "fixOdd cfg rd k b1 (prevLen div 2) = Some ((buf', prevLen', None), k')"
    and upd: "updateProofs buf' prevLen' step ps = Some ps'"
    by (auto simp: proofGenStep_def Let_def split: option.splits prod.splits)
  from fixOdd_length [OF fx] have ev': "even prevLen'" and le: "prevLen div 2 \<le> prevLen'"
    by blast+
  have cover': "length ps \<le> prevLen' * 2 ^ step"
    by (rule half_cover [OF cover ev pos le])
  from updateProofs_level [OF upd lvl cover'] ev' cover' show ?thesis by simp
qed

lemma proofGen_proofs:
  assumes run: "proofGen rd m = Some (m', None)" and depth: "1 \<le> Depth m"
  shows "length (Proofs m') = length (Leaves m) \<and> (\<forall>p\<in>set (Proofs m'). proofAtLevel (Depth m) p)"
proof -
  let ?n = "length (Leaves m)"
  let ?init = "replicate ?n \<lparr>Siblings = [], Path = 0\<rparr>"
  from run obtain buf prevLen k ps1 bufF pF kF psF where
    fx: "fixOdd (Config m) rd 0 (Leaves m) ?n = Some ((buf, prevLen, None), k)"
    and upd: "updateProofs buf ?n 0 ?init = Some ps1"
    and loop: "forLoop 1 (Depth m) 1 (proofGenStep (Config m) rd) (buf, prevLen, k, ps1) =
                 Some ((bufF, pF, kF, psF), None)"
    and res: "Proofs m' = psF"
    by (auto simp: proofGen_def Let_def initProofs_def split: option.splits prod.splits if_splits)
  have init: "\<forall>p\<in>set ?init. proofAtLevel 0 p" by (simp add: proofAtLevel_def)
  from updateProofs_level [OF upd init] have ps1: "length ps1 = ?n" "\<forall>p\<in>set ps1. proofAtLevel 1 p"
    by simp_all
  from fixOdd_length [OF fx] have pl: "even prevLen" "?n \<le> prevLen" by blast+
  let ?I = "\<lambda>j st. case st of (b, pl, kk, ps) \<Rightarrow>
              1 \<le> j \<and> j \<le> Depth m \<and> length ps = ?n \<and> (\<forall>p\<in>set ps. proofAtLevel j p) \<and>
              ?n \<le> pl * 2 ^ (j - 1) \<and> even pl"
  have "\<exists>j. Depth m \<le> j \<and> ?I j (bufF, pF, kF, psF)"
  proof (rule forLoop_invariant [where I = ?I, OF _ _ loop], goal_cases)
    case (1 j t t')
    obtain b pl kk ps where t: "t = (b, pl, kk, ps)" by (cases t)
    obtain b' pl' kk' ps' where t': "t' = (b', pl', kk', ps')" by (cases t')
    from 1(1) t have I: "1 \<le> j" "length ps = ?n" "\<forall>p\<in>set ps. proofAtLevel j p"
        "length ps \<le> pl * 2 ^ (j - 1)" "even pl"
      by simp_all
    from proofGenStep_level [OF 1(3) [unfolded t t'] I(3,4,5,1)] I(2) 1(2)
    show ?case by (simp add: t')
  next
    case 2
    show ?case by simp
  next
    case 3
    from ps1 pl depth show ?case by simp
  qed
  then have "length psF = ?n \<and> (\<forall>p\<in>set psF. proofAtLevel (Depth m) p)"
    by (auto simp: le_antisym)
  with res show ?thesis by simp
qed

subsection \<open>Levels built by treeBuild\<close>

lemma treeBuildPair_lengths:
  assumes "treeBuildPair cfg i j t = Some (t', e)"
  shows "length t' = length t \<and> (\<forall>x<length t. length (t' ! x) = length (t ! x))"
  using assms
  by (auto simp: treeBuildPair_def Let_def nth_list_update split: if_splits option.splits prod.splits)

lemma treeBuildPairs_lengths:
  assumes "forLoop 0 prevLen 2 (treeBuildPair cfg i) t = Some (t', None)"
  shows "length t' = length t \<and> (\<forall>x<length t. length (t' ! x) = length (t ! x))"
proof -
  let ?I = "\<lambda>(j::nat) u. length u = length t \<and> (\<forall>x<length t. length (u ! x) = length (t ! x))"
  have "\<exists>j. prevLen \<le> j \<and> ?I j t'"
  proof (rule forLoop_invariant [where I = ?I, OF _ _ assms], goal_cases)
    case (1 j u u')
    from treeBuildPair_lengths [OF 1(3)] 1(1) show ?case by simp
  qed simp_all
  then show ?thesis by blast
qed

lemma treeBuildLevel_lengths:
  assumes "treeBuildLevel cfg rd i (t, prevLen, k) = Some ((t', prevLen', k'), None)"
  shows "length t' = length t \<and> i + 1 < length t \<and>
         (\<forall>x<length t. x \<noteq> i + 1 \<longrightarrow> length (t' ! x) = length (t ! x)) \<and>
         prevLen' = length (t' ! (i + 1)) \<and> even prevLen' \<and> prevLen div 2 \<le> prevLen'"
proof -
  let ?t1 = "t[i + 1 := replicate (prevLen div 2) []]"
  from assms obtain t2 lvl where
    i: "i + 1 < length t"
    and pairs: "forLoop 0 prevLen 2 (treeBuildPair cfg i) ?t1 = Some (t2, None)"
    and fx: "fixOdd cfg rd k (t2 ! (i + 1)) (length (t2 ! (i + 1))) = Some ((lvl, prevLen', None), k')"
    and res: "t' = t2[i + 1 := lvl]"
    by (auto simp: treeBuildLevel_def Let_def split: if_splits option.splits prod.splits)
  from treeBuildPairs_lengths [OF pairs]
  have l2: "length t2 = length t" "\<forall>x<length t. length (t2 ! x) = length (?t1 ! x)"
    by simp_all
  from l2(2) i have half: "length (t2 ! (i + 1)) = prevLen div 2" by simp
  from fixOdd_length [OF fx] have f: "even prevLen'" "length (t2 ! (i + 1)) \<le> prevLen'"
      "prevLen' = length lvl"
    by blast+
  have "length (t' ! x) = length (t ! x)" if "x < length t" "x \<noteq> i + 1" for x
    using that l2 res by simp
  moreover have "prevLen' = length (t' ! (i + 1))" using res l2(1) i f(3) by simp
  ultimately show ?thesis using i l2(1) res f half by simp
qed

lemma treeBuild_levels:
  assumes run: "treeBuild rd m = Some (m', None)"
  shows "length (tree m') = Depth m \<and>
         (\<forall>i<Depth m. length (Leaves m) \<le> length (tree m' ! i) * 2 ^ i \<and>
                      even (length (tree m' ! i)))"
proof -
  let ?n = "length (Leaves m)"
  let ?D = "Depth m"
  from run have D: "0 < ?D" by (auto simp: treeBuild_def Let_def split: if_splits)
  then have lvl0: "(replicate ?D [])[0 := Leaves m] ! 0 = Leaves m" by simp
  from run D obtain lvl prevLen k tF pF kF where
    fx: "fixOdd (Config m) rd 0 (Leaves m) ?n = Some ((lvl, prevLen, None), k)"
    and loop: "forLoop 0 (?D - 1) 1 (treeBuildLevel (Config m) rd)
                 ((replicate ?D [])[0 := lvl], prevLen, k) = Some ((tF, pF, kF), None)"
    and res: "tree m' = tF"
    by (auto simp: treeBuild_def Let_def lvl0 split: if_splits option.splits prod.splits)
  from fixOdd_length [OF fx] have f: "even prevLen" "?n \<le> prevLen" "prevLen = length lvl"
    by blast+
  let ?I = "\<lambda>j st. case st of (t, pl, kk) \<Rightarrow>
              j \<le> ?D - 1 \<and> length t = ?D \<and> pl = length (t ! j) \<and> even pl \<and>
              (\<forall>i\<le>j. ?n \<le> length (t ! i) * 2 ^ i \<and> even (length (t ! i)))"
  have "\<exists>j. ?D - 1 \<le> j \<and> ?I j (tF, pF, kF)"
  proof (rule forLoop_invariant [where I = ?I, OF _ _ loop], goal_cases)
    case (1 j st st')
    obtain t pl kk where st: "st = (t, pl, kk)" by (cases st)
    obtain t' pl' kk' where st': "st' = (t', pl', kk')" by (cases st')
    from 1(1) st have I: "length t = ?D" "pl = length (t ! j)" "even pl"
        "\<forall>i\<le>j. ?n \<le> length (t ! i) * 2 ^ i \<and> even (length (t ! i))"
      by auto
    note L = treeBuildLevel_lengths [OF 1(3) [unfolded st st']]
    from L have len: "length t' = ?D" and pl': "pl' = length (t' ! (j + 1))" and ev': "even pl'"
      and half: "pl div 2 \<le> pl'"
      and same: "\<forall>x<length t. x \<noteq> j + 1 \<longrightarrow> length (t' ! x) = length (t ! x)"
      using I(1) by auto
    from I(4) I(2) have "?n \<le> pl * 2 ^ (j + 1 - 1)" by simp
    from half_cover [OF this I(3) _ half] have top: "?n \<le> pl' * 2 ^ (j + 1)" by simp
    have "?n \<le> length (t' ! x) * 2 ^ x \<and> even (length (t' ! x))" if "x \<le> j + 1" for x
    proof (cases "x = j + 1")
      case True
      with top pl' ev' show ?thesis by simp
    next
      case False
      with that have xj: "x \<le> j" by simp
      with 1(2) I(1) have "x < length t" by simp
      with same False have "length (t' ! x) = length (t ! x)" by simp
      with I(4) xj show ?thesis by simp
    qed
    with 1(2) len pl' ev' show ?case by (simp add: st')
  next
    case 2
    show ?case by simp
  next
    case 3
    from D f show ?case by simp
  qed
  then have "length tF = ?D \<and>
             (\<forall>i\<le>?D - 1. ?n \<le> length (tF ! i) * 2 ^ i \<and> even (length (tF ! i)))"
    by (auto simp: le_antisym)
  with D res show ?thesis by (auto simp: less_Suc_eq_le dest!: Suc_leI)
qed


lemma updateProofsFromTree_level:
  assumes run: "updateProofsFromTree t ps = Some ps'"
    and init: "\<forall>p\<in>set ps. proofAtLevel 0 p"
    and cover: "\<forall>i<length t. length ps \<le> length (t ! i) * 2 ^ i"
  shows "length ps' = length ps \<and> (\<forall>p\<in>set ps'. proofAtLevel (length t) p)"
proof -
  let ?I = "\<lambda>j q. j \<le> length t \<and> length q = length ps \<and> (\<forall>p\<in>set q. proofAtLevel j p)"
  from run have loop:
    "forRange 0 (length t) 1 (\<lambda>i ps. updateProofs (t ! i) (length (t ! i)) i ps) ps = Some ps'"
    by (simp add: updateProofsFromTree_def)
  have "\<exists>j. length t \<le> j \<and> ?I j ps'"
  proof (rule forRange_invariant [where I = ?I, OF _ _ loop], goal_cases)
    case (1 j q q')
    from 1(1) have q: "length q = length ps" "\<forall>p\<in>set q. proofAtLevel j p" by auto
    from cover 1(2) q(1) have c: "length q \<le> length (t ! j) * 2 ^ j" by simp
    from updateProofs_level [OF 1(3) q(2) c] q(1) 1(2) show ?case by simp
  next
    case 2
    show ?case by simp
  next
    case 3
    from init show ?case by simp
  qed
  then show ?thesis by (auto simp: le_antisym)
qed

subsection \<open>Leaves\<close>

lemma length_insertLeaf: "length (insertLeaf x ys) = Suc (length ys)"
  by (induction ys) simp_all

lemma length_sortSlice: "length (sortSlice xs) = length xs"
  by (induction xs) (simp_all add: sortSlice_def length_insertLeaf)

lemma length_serializeBlocks: "serializeBlocks bs = (ls, None) \<Longrightarrow> length ls = length bs"
  by (induction bs arbitrary: ls) (auto split: prod.splits option.splits)

lemma length_leafGen: "leafGen m bs = (ls, None) \<Longrightarrow> length ls = length bs"
  by (auto simp: leafGen_def length_sortSlice length_serializeBlocks
      split: prod.splits option.splits if_splits)

subsection \<open>Append on slices without spare capacity\<close>

text \<open>
  On a slice whose capacity is its length, \<^verbatim>\<open>append\<close> yields the concatenation and leaves
  every array in use as it was: this is the \<open>@\<close> of \<open>proofGenHash\<close>, \<open>treeBuildPair\<close> and
  \<open>verifyLoop\<close>.
\<close>

lemma goAppend_copies:
  assumes exact: "cap a = len a"
    and inside: "offset a + len a \<le> length (h (array a))"
    and run: "goAppend h fresh a b = (h', r)"
  shows "contents h' r = contents h a @ contents h b \<and> (\<forall>i. i \<noteq> fresh \<longrightarrow> h' i = h i)"
proof (cases "contents h b = []")
  case True
  with exact run have "h' = h(array a := h (array a))" and "r = a\<lparr>len := len a\<rparr>"
    by (simp_all add: goAppend_def Let_def)
  then have "h' = h" and "r = a" by simp_all
  with True show ?thesis by simp
next
  case False
  define ca cb where c: "ca = contents h a" "cb = contents h b"
  from False exact run have h': "h' = h(fresh := ca @ cb)"
    and r: "r = \<lparr>array = fresh, offset = 0, len = len a + length cb, cap = len a + length cb\<rparr>"
    by (simp_all add: goAppend_def Let_def c)
  from inside have "length ca = len a" by (simp add: contents_def c)
  then have "contents h' r = ca @ cb" by (simp add: contents_def h' r)
  with h' show ?thesis by (simp add: c)
qed

text \<open>
  With spare capacity it writes in place. In the array "abc", appending the third byte to
  the window on the first byte, of capacity 3, overwrites the window on the second byte.
\<close>

lemma goAppend_in_place:
  "contents (\<lambda>_. [97, 98, 99]) \<lparr>array = 0, offset = 1, len = 1, cap = 2\<rparr> = [98] \<and>
   contents
     (fst (goAppend (\<lambda>_. [97, 98, 99]) 1 \<lparr>array = 0, offset = 0, len = 1, cap = 3\<rparr>
             \<lparr>array = 0, offset = 2, len = 1, cap = 1\<rparr>))
     \<lparr>array = 0, offset = 1, len = 1, cap = 2\<rparr> = [99]"
  by (simp add: goAppend_def contents_def Let_def)

subsection \<open>Determinism\<close>

text \<open>
  The random source is read by \<open>fixOdd\<close> only, when \<open>NoDuplicates\<close> is set and the level
  has an odd length.
\<close>

lemma fixOdd_even: "even p \<Longrightarrow> fixOdd cfg rd k buf p = Some ((buf, p, None), k)"
  by (simp add: fixOdd_def)

lemma fixOdd_duplicating:
  "\<not> NoDuplicates cfg \<Longrightarrow> fixOdd cfg rd k buf prevLen = fixOdd cfg rd' k buf prevLen"
  by (simp add: fixOdd_def)

lemma proofGenStep_duplicating:
  assumes "\<not> NoDuplicates cfg"
  shows "proofGenStep cfg rd = proofGenStep cfg rd'"
  unfolding proofGenStep_def fixOdd_duplicating [OF assms, of rd _ _ _ rd'] by (rule refl)

lemma treeBuildLevel_duplicating:
  assumes "\<not> NoDuplicates cfg"
  shows "treeBuildLevel cfg rd = treeBuildLevel cfg rd'"
  unfolding treeBuildLevel_def fixOdd_duplicating [OF assms, of rd _ _ _ rd'] by (rule refl)

lemma proofGen_duplicating:
  assumes "\<not> NoDuplicates (Config m)"
  shows "proofGen rd m = proofGen rd' m"
  unfolding proofGen_def Let_def Config_initProofs
    fixOdd_duplicating [OF assms, of rd _ _ _ rd']
    proofGenStep_duplicating [OF assms, of rd rd']
  by (rule refl)

lemma treeBuild_duplicating:
  assumes "\<not> NoDuplicates (Config m)"
  shows "treeBuild rd m = treeBuild rd' m"
proof -
  have c: "Config (m\<lparr>leafMap := a, tree := b, tree := c\<rparr>) = Config m" for a b c by simp
  have n: "\<not> NoDuplicates (Config (m\<lparr>leafMap := a, tree := b, tree := c\<rparr>))" for a b c
    using assms by simp
  show ?thesis
    using assms
    by (simp add: treeBuild_def Let_def fixOdd_duplicating [of _ rd _ _ _ rd']
        treeBuildLevel_duplicating [of _ rd rd'] cong: option.case_cong prod.case_cong if_cong)
qed

text \<open>
  When the number of leaves is \<open>2 ^ Depth\<close>, the level reached after \<open>j\<close> rounds has
  \<open>2 ^ (Depth - j)\<close> nodes, an even number in every round of the loops, so that no level is
  padded.
\<close>

lemma proofGenStep_even:
  assumes "even (pl div 2)"
  shows "proofGenStep cfg rd j (b, pl, kk, ps) = proofGenStep cfg rd' j (b, pl, kk, ps)"
  unfolding proofGenStep_def Let_def prod.case fixOdd_even [OF assms] by (rule refl)

lemma proofGenStep_even_length:
  assumes "proofGenStep cfg rd j (b, pl, kk, ps) = Some ((b', pl', kk', ps'), None)"
    and "even (pl div 2)"
  shows "pl' = pl div 2"
  using assms
  by (auto simp: proofGenStep_def Let_def fixOdd_even split: option.splits prod.splits)

lemma even_half_power:
  fixes D j :: nat
  assumes "j < D"
  shows "even ((2 :: nat) ^ (D + 1 - j) div 2)" and "(2 :: nat) ^ (D + 1 - j) div 2 = 2 ^ (D + 1 - (j + 1))"
proof -
  from assms obtain c where c: "D - j = Suc c" by (cases "D - j") auto
  with assms have "D + 1 - j = Suc (Suc c)" by simp
  moreover from c assms have "D + 1 - (j + 1) = Suc c" by simp
  ultimately show "even ((2 :: nat) ^ (D + 1 - j) div 2)"
    and "(2 :: nat) ^ (D + 1 - j) div 2 = 2 ^ (D + 1 - (j + 1))"
    by simp_all
qed

lemma proofGen_power_of_two:
  assumes n: "length (Leaves m) = 2 ^ Depth m" and D: "1 \<le> Depth m"
  shows "proofGen rd m = proofGen rd' m"
proof -
  let ?D = "Depth m"
  from D have ev: "even (length (Leaves m))" by (cases ?D) (simp_all add: n)
  let ?I = "\<lambda>j st. case st of (b, pl, kk, ps) \<Rightarrow> j \<le> ?D \<and> pl = (2 :: nat) ^ (?D + 1 - j)"
  have loop: "forLoop 1 ?D 1 (proofGenStep (Config m) rd) (b, length (Leaves m), kk, ps) =
              forLoop 1 ?D 1 (proofGenStep (Config m) rd') (b, length (Leaves m), kk, ps)" for b kk ps
  proof (rule forLoop_cong_invariant [where I = ?I], goal_cases)
    case (1 j t)
    obtain b pl kk ps where t: "t = (b, pl, kk, ps)" by (cases t)
    from 1(1) t have pl: "pl = 2 ^ (?D + 1 - j)" by simp
    from even_half_power(1) [OF 1(2)] show ?case
      unfolding t by (intro proofGenStep_even) (simp add: pl)
  next
    case (2 j t t')
    obtain b pl kk ps where t: "t = (b, pl, kk, ps)" by (cases t)
    obtain b' pl' kk' ps' where t': "t' = (b', pl', kk', ps')" by (cases t')
    from 2(1) t have pl: "pl = 2 ^ (?D + 1 - j)" by simp
    from even_half_power [OF 2(2)] have e: "even (pl div 2)" and h: "pl div 2 = 2 ^ (?D + 1 - (j + 1))"
      by (simp_all add: pl)
    from proofGenStep_even_length [OF 2(3) [unfolded t t'] e] h 2(2) show ?case
      by (simp add: t')
  next
    case 3
    from D show ?case by (simp add: n)
  qed
  have init: "Depth (initProofs m) = Depth m" "Leaves (initProofs m) = Leaves m"
    by (simp_all add: initProofs_def)
  show ?thesis
    unfolding proofGen_def Let_def Config_initProofs fixOdd_even [OF ev] option.case prod.case
      init loop
    by (rule refl)
qed

lemma treeBuildLevel_even:
  assumes e: "even (pl div 2)"
  shows "treeBuildLevel cfg rd i (t, pl, k) = treeBuildLevel cfg rd' i (t, pl, k) \<and>
         (\<forall>t' pl' k'. treeBuildLevel cfg rd i (t, pl, k) = Some ((t', pl', k'), None) \<longrightarrow>
            pl' = pl div 2 \<and> length t' = length t)"
proof (cases "i + 1 < length t")
  case False
  then show ?thesis by (simp add: treeBuildLevel_def)
next
  case i: True
  let ?t1 = "t[i + 1 := replicate (pl div 2) []]"
  show ?thesis
  proof (cases "forLoop 0 pl 2 (treeBuildPair cfg i) ?t1")
    case None
    with i show ?thesis by (simp add: treeBuildLevel_def)
  next
    case (Some r)
    obtain t2 err where r: "r = (t2, err)" by (cases r)
    show ?thesis
    proof (cases err)
      case (Some e')
      with \<open>forLoop 0 pl 2 (treeBuildPair cfg i) ?t1 = Some r\<close> r i show ?thesis
        by (simp add: treeBuildLevel_def)
    next
      case None
      with Some r have pairs: "forLoop 0 pl 2 (treeBuildPair cfg i) ?t1 = Some (t2, None)"
        by simp
      from treeBuildPairs_lengths [OF pairs] i
      have l: "length t2 = length t" and half: "length (t2 ! (i + 1)) = pl div 2" by simp_all
      from i pairs l half show ?thesis
        by (simp add: treeBuildLevel_def fixOdd_even [OF e])
    qed
  qed
qed

lemma treeBuild_power_of_two:
  assumes n: "length (Leaves m) = 2 ^ Depth m" and D: "1 \<le> Depth m"
  shows "treeBuild rd m = treeBuild rd' m"
proof -
  let ?D = "Depth m"
  from D have ev: "even (length (Leaves m))" by (cases ?D) (simp_all add: n)
  let ?I = "\<lambda>j st. case st of (t, pl, kk) \<Rightarrow> pl = (2 :: nat) ^ (?D - j)"
  have half: "even ((2 :: nat) ^ (?D - j) div 2) \<and> (2 :: nat) ^ (?D - j) div 2 = 2 ^ (?D - (j + 1))"
    if "j < ?D - 1" for j
  proof -
    from that obtain c where "?D - j = Suc (Suc c)"
      by (cases "?D - j"; cases "?D - j - 1") auto
    moreover from this have "?D - (j + 1) = Suc c" by simp
    ultimately show ?thesis by simp
  qed
  have loop: "forLoop 0 (?D - 1) 1 (treeBuildLevel (Config m) rd) (t, length (Leaves m), kk) =
              forLoop 0 (?D - 1) 1 (treeBuildLevel (Config m) rd') (t, length (Leaves m), kk)" for t kk
  proof (rule forLoop_cong_invariant [where I = ?I], goal_cases)
    case (1 j st)
    obtain t pl kk where st: "st = (t, pl, kk)" by (cases st) auto
    from 1(1) st have pl: "pl = 2 ^ (?D - j)" by simp
    from half [OF 1(2)] have "even (pl div 2)" unfolding pl by blast
    from treeBuildLevel_even [OF this] show ?case unfolding st by blast
  next
    case (2 j st st')
    obtain t pl kk where st: "st = (t, pl, kk)" by (cases st) auto
    obtain t' pl' kk' where st': "st' = (t', pl', kk')" by (cases st') auto
    from 2(1) st have pl: "pl = 2 ^ (?D - j)" by simp
    from half [OF 2(2)] have e: "even (pl div 2)" and h: "pl div 2 = 2 ^ (?D - (j + 1))"
      unfolding pl by blast+
    from treeBuildLevel_even [OF e, of "Config m" rd j t kk rd'] 2(3) [unfolded st st']
    have "pl' = pl div 2" by blast
    with h show ?case by (simp add: st')
  next
    case 3
    show ?case by (simp add: n)
  qed
  show ?thesis
    using D
    by (simp add: treeBuild_def Let_def fixOdd_even [OF ev] loop [unfolded One_nat_def])
qed

lemma New_power_of_two:
  assumes "length blocks = 2 ^ d" and "d < 63"
  shows "New dflt rd config blocks = New dflt rd' config blocks"
proof (cases "length blocks \<le> 1")
  case True
  then show ?thesis by (simp add: New_eq)
next
  case False
  let ?m = "\<lparr>Config = effectiveConfig dflt config, leafMap = Map.empty, tree = [], Root = [],
             Leaves = [], Proofs = [], Depth = calTreeDepth (length blocks)\<rparr>"
  obtain leaves err where lg: "leafGen ?m blocks = (leaves, err)" by (cases "leafGen ?m blocks")
  show ?thesis
  proof (cases err)
    case (Some e)
    with lg False show ?thesis by (simp add: New_eq)
  next
    case None
    from length_leafGen [OF lg [unfolded None]] assms have len: "length leaves = 2 ^ d" by simp
    have dep: "calTreeDepth (length blocks) = d" using assms by (simp add: calTreeDepth_power)
    have d: "1 \<le> d"
    proof (cases d)
      case 0
      with False assms show ?thesis by simp
    qed simp
    have a: "proofGen rd (?m\<lparr>Leaves := leaves\<rparr>) = proofGen rd' (?m\<lparr>Leaves := leaves\<rparr>)"
      by (rule proofGen_power_of_two) (use d in \<open>simp_all add: len dep\<close>)
    have b: "treeBuild rd (?m\<lparr>Leaves := leaves\<rparr>) = treeBuild rd' (?m\<lparr>Leaves := leaves\<rparr>)"
      by (rule treeBuild_power_of_two) (use d in \<open>simp_all add: len dep\<close>)
    show ?thesis
      unfolding New_eq Let_def lg None prod.case option.case a b by (rule refl)
  qed
qed

text \<open>
  C9 (as amended): for a fixed configuration and a fixed sequence of serialized blocks such
  that \<open>NoDuplicates\<close> is off or the number of blocks is a power of two (in the range of
  \<^verbatim>\<open>int\<close>), two runs of \<open>New\<close> return the same result (the same root and proofs, or the same
  error), whatever the random source yields in either run. The blocks are byte strings: the
  statement is about serializations and hashes held in slices without spare capacity, for
  which \<^verbatim>\<open>append\<close> copies (\<open>goAppend_copies\<close>); what \<open>New\<close> does when \<^verbatim>\<open>append\<close> writes
  into storage of the caller is not part of it.
\<close>

theorem New_deterministic:
  assumes "\<not> NoDuplicates (givenConfig config) \<or> (\<exists>d<63. length blocks = 2 ^ d)"
  shows "New dflt rd config blocks = New dflt rd' config blocks"
proof -
  have "New dflt rd config blocks = New dflt rd' config blocks"
    if "\<not> NoDuplicates (givenConfig config)"
    using that
    by (simp add: New_eq Let_def proofGen_duplicating [of _ rd rd']
        treeBuild_duplicating [of _ rd rd'] cong: option.case_cong prod.case_cong if_cong)
  with assms New_power_of_two show ?thesis by blast
qed

theorem New_deterministic_witness:
  "\<not> NoDuplicates (givenConfig (Some (plainConfig (totalHash lengthHash) ModeProofGen))) \<and>
   New (totalHash lengthHash) (constEntropy 0) (Some (plainConfig (totalHash lengthHash) ModeProofGen))
     [block [97], block [98], block [99]] =
   New (totalHash lengthHash) (constEntropy 1) (Some (plainConfig (totalHash lengthHash) ModeProofGen))
     [block [97], block [98], block [99]] \<and>
   NoDuplicates (givenConfig
     (Some ((plainConfig (totalHash lengthHash) ModeProofGen)\<lparr>NoDuplicates := True\<rparr>))) \<and>
   length [block [97], block [98], block [99], block [100]] = 2 ^ 2 \<and>
   New (totalHash lengthHash) (constEntropy 0)
     (Some ((plainConfig (totalHash lengthHash) ModeProofGen)\<lparr>NoDuplicates := True\<rparr>))
     [block [97], block [98], block [99], block [100]] =
   New (totalHash lengthHash) (constEntropy 1)
     (Some ((plainConfig (totalHash lengthHash) ModeProofGen)\<lparr>NoDuplicates := True\<rparr>))
     [block [97], block [98], block [99], block [100]]"
proof -
  have h: "\<not> NoDuplicates (givenConfig (Some (plainConfig (totalHash lengthHash) ModeProofGen)))"
    by (simp add: givenConfig_def plainConfig_def)
  have nd: "NoDuplicates (givenConfig
     (Some ((plainConfig (totalHash lengthHash) ModeProofGen)\<lparr>NoDuplicates := True\<rparr>)))"
    by (simp add: givenConfig_def plainConfig_def)
  have four: "length [block [97], block [98], block [99], block [100]] = 2 ^ 2" by simp
  then have p: "\<exists>d<63. length [block [97], block [98], block [99], block [100]] = 2 ^ d"
    by (intro exI [of _ 2]) simp
  from h nd four New_deterministic [of "Some (plainConfig (totalHash lengthHash) ModeProofGen)"]
    New_deterministic [of _ "[block [97], block [98], block [99], block [100]]", OF disjI2, OF p]
  show ?thesis by blast
qed

text \<open>
  With \<open>NoDuplicates\<close> on, the three blocks "a", "b", "c" are padded with random bytes, and
  two runs that read different bytes build different roots and different proofs.
\<close>

theorem New_random_padding_counterexample:
  "\<exists>m m'. New (totalHash lengthHash) (constEntropy 0)
             (Some ((plainConfig (totalHash lengthHash) ModeProofGen)\<lparr>NoDuplicates := True\<rparr>))
             [block [97], block [98], block [99]] = Some (Some m, None) \<and>
           New (totalHash lengthHash) (constEntropy 1)
             (Some ((plainConfig (totalHash lengthHash) ModeProofGen)\<lparr>NoDuplicates := True\<rparr>))
             [block [97], block [98], block [99]] = Some (Some m', None) \<and>
           Root m \<noteq> Root m' \<and> Proofs m \<noteq> Proofs m'"
proof -
  have "\<exists>m. New (totalHash lengthHash) (constEntropy 0)
             (Some ((plainConfig (totalHash lengthHash) ModeProofGen)\<lparr>NoDuplicates := True\<rparr>))
             [block [97], block [98], block [99]] = Some (Some m, None) \<and>
           (Root m = lengthHash (lengthHash ([97] @ [98]) @ lengthHash ([99] @ replicate 32 0)) \<and>
            Siblings (Proofs m ! 2) = [replicate 32 0, lengthHash ([97] @ [98])])"
    by (rule built_caseD) code_simp
  moreover
  have "\<exists>m. New (totalHash lengthHash) (constEntropy 1)
             (Some ((plainConfig (totalHash lengthHash) ModeProofGen)\<lparr>NoDuplicates := True\<rparr>))
             [block [97], block [98], block [99]] = Some (Some m, None) \<and>
           (Root m = lengthHash (lengthHash ([97] @ [98]) @ lengthHash ([99] @ replicate 32 1)) \<and>
            Siblings (Proofs m ! 2) = [replicate 32 1, lengthHash ([97] @ [98])])"
    by (rule built_caseD) code_simp
  moreover
  have "lengthHash (lengthHash ([97] @ [98]) @ lengthHash ([99] @ replicate 32 0)) \<noteq>
        lengthHash (lengthHash ([97] @ [98]) @ lengthHash ([99] @ replicate 32 1))"
    by code_simp
  moreover
  have "[replicate 32 0, lengthHash ([97] @ [98])] \<noteq> [replicate 32 (1 :: 8 word), lengthHash ([97] @ [98])]"
    by code_simp
  ultimately show ?thesis by metis
qed

subsection \<open>The shape of the generated proofs\<close>

text \<open>
  C10: in every tree that \<open>New\<close> builds without error in \<open>ModeProofGen\<close> or
  \<open>ModeProofGenAndTreeBuild\<close> there is one proof for each of the \<open>n\<close> blocks, every proof has
  exactly \<open>Depth\<close> siblings, and its path, read as a number, is below \<open>2 ^ Depth\<close>.
\<close>

theorem proofs_have_Depth_siblings:
  assumes built: "New dflt rd config blocks = Some (Some m, None)"
    and mode: "Mode (givenConfig config) = ModeProofGen \<or>
               Mode (givenConfig config) = ModeProofGenAndTreeBuild"
  shows "2 \<le> length blocks \<and> length (Proofs m) = length blocks \<and>
         (\<forall>p\<in>set (Proofs m). length (Siblings p) = Depth m \<and> unat (Path p) < 2 ^ Depth m)"
proof -
  from New_fields [OF built] have n: "2 \<le> length blocks" and D: "Depth m = calTreeDepth (length blocks)"
    by simp_all
  from calTreeDepth_pos [OF n] D have pos: "1 \<le> Depth m" by simp
  let ?m0 = "\<lparr>Config = effectiveConfig dflt config, leafMap = Map.empty, tree = [], Root = [],
               Leaves = [], Proofs = [], Depth = calTreeDepth (length blocks)\<rparr>"
  from built n obtain leaves where lg: "leafGen ?m0 blocks = (leaves, None)"
    by (auto simp: New_eq Let_def split: prod.splits option.splits if_splits)
  let ?m1 = "?m0\<lparr>Leaves := leaves\<rparr>"
  from length_leafGen [OF lg] have len: "length leaves = length blocks" .
  have "length (Proofs m) = length blocks \<and> (\<forall>p\<in>set (Proofs m). proofAtLevel (Depth m) p)"
    using mode
  proof
    assume md: "Mode (givenConfig config) = ModeProofGen"
    with built n lg have run: "proofGen rd ?m1 = Some (m, None)"
      by (auto simp: New_eq Let_def split: option.splits prod.splits)
    from proofGen_proofs [OF run] pos D len show ?thesis by simp
  next
    assume md: "Mode (givenConfig config) = ModeProofGenAndTreeBuild"
    with built n lg obtain m2 ps where
      run: "treeBuild rd ?m1 = Some (m2, None)"
      and upd: "updateProofsFromTree (tree (initProofs m2)) (Proofs (initProofs m2)) = Some ps"
      and res: "m = (initProofs m2)\<lparr>Proofs := ps\<rparr>"
      by (auto simp: New_eq Let_def mode_defs split: option.splits prod.splits)
    from treeBuild_fields [OF run] have f: "Depth m2 = Depth ?m1" "Leaves m2 = leaves" by simp_all
    from treeBuild_levels [OF run]
    have lv: "length (tree m2) = Depth ?m1"
      "\<forall>i<Depth ?m1. length leaves \<le> length (tree m2 ! i) * 2 ^ i"
      by auto
    have init: "\<forall>p\<in>set (Proofs (initProofs m2)). proofAtLevel 0 p"
      by (simp add: initProofs_def proofAtLevel_def)
    have t: "tree (initProofs m2) = tree m2" and l: "length (Proofs (initProofs m2)) = length leaves"
      by (simp_all add: initProofs_def f)
    from lv(2) have cover: "\<forall>i<length (tree (initProofs m2)).
        length (Proofs (initProofs m2)) \<le> length (tree (initProofs m2) ! i) * 2 ^ i"
      by (simp add: t l lv(1))
    from updateProofsFromTree_level [OF upd init cover] res D len show ?thesis
      by (simp add: t l lv(1))
  qed
  with n show ?thesis by (simp add: proofAtLevel_def)
qed


theorem proofs_have_Depth_siblings_witness:
  "\<exists>m. New (totalHash lengthHash) (constEntropy 0)
          (Some (plainConfig (totalHash lengthHash) ModeProofGenAndTreeBuild))
          [block [97], block [98], block [99]] = Some (Some m, None) \<and>
        length (Proofs m) = 3 \<and> Depth m = 2 \<and>
        list_all (\<lambda>p. length (Siblings p) = 2 \<and> unat (Path p) < 4) (Proofs m)"
proof -
  let ?config = "Some (plainConfig (totalHash lengthHash) ModeProofGenAndTreeBuild)"
  let ?blocks = "[block [97], block [98], block [99]]"
  have "\<exists>m. New (totalHash lengthHash) (constEntropy 0) ?config ?blocks = Some (Some m, None) \<and> True"
    by (rule built_caseD [where P = "\<lambda>_. True"]) code_simp
  then obtain m where m: "New (totalHash lengthHash) (constEntropy 0) ?config ?blocks = Some (Some m, None)"
    by blast
  have mode: "Mode (givenConfig ?config) = ModeProofGen \<or>
              Mode (givenConfig ?config) = ModeProofGenAndTreeBuild"
    by (simp add: givenConfig_def plainConfig_def)
  have "calTreeDepth (length ?blocks) = 2" by (rule calTreeDepth_eqI) simp_all
  with New_fields [OF m] have D: "Depth m = 2" by (simp only:)
  from proofs_have_Depth_siblings [OF m mode] D
  have "length (Proofs m) = 3 \<and>
        list_all (\<lambda>p. length (Siblings p) = 2 \<and> unat (Path p) < 4) (Proofs m)"
    by (simp add: list_all_iff)
  with m D show ?thesis by blast
qed

subsection \<open>The scenario of four blocks\<close>

text \<open>
  C8 (as amended): for the blocks "a", "b", "c", "d", a hash function \<open>H\<close> that never fails
  (SHA-256 is one), no sorting and the duplication policy, the tree has the leaf layer
  \<open>[a, b, c, d]\<close>, level 1 \<open>[H (a @ b), H (c @ d)]\<close>, the root \<open>H (level1[0] @ level1[1])\<close>, and
  the proof of "a" has the siblings \<open>[b, level1[1]]\<close> and the path 3: both path bits are set,
  since "a" and \<open>H (a @ b)\<close> sit on the left.
\<close>

theorem scenario_abcd:
  "(\<exists>m. New dflt rd (Some (plainConfig (totalHash H) ModeProofGen))
          [block [97], block [98], block [99], block [100]] = Some (Some m, None) \<and>
        Leaves m = [[97], [98], [99], [100]] \<and>
        Root m = H (H ([97] @ [98]) @ H ([99] @ [100])) \<and>
        Proofs m ! 0 = \<lparr>Siblings = [[98], H ([99] @ [100])], Path = 3\<rparr>) \<and>
   (\<exists>m. New dflt rd (Some (plainConfig (totalHash H) ModeProofGenAndTreeBuild))
          [block [97], block [98], block [99], block [100]] = Some (Some m, None) \<and>
        Leaves m = [[97], [98], [99], [100]] \<and>
        tree m = [[[97], [98], [99], [100]], [H ([97] @ [98]), H ([99] @ [100])]] \<and>
        Root m = H (H ([97] @ [98]) @ H ([99] @ [100])) \<and>
        Proofs m ! 0 = \<lparr>Siblings = [[98], H ([99] @ [100])], Path = 3\<rparr>)"
  by (intro conjI; rule built_caseD; code_simp)

theorem scenario_path_counterexample:
  "\<exists>m. New (totalHash lengthHash) (constEntropy 0) (Some (plainConfig (totalHash lengthHash) ModeProofGen))
          [block [97], block [98], block [99], block [100]] = Some (Some m, None) \<and>
        Siblings (Proofs m ! 0) = [[98], lengthHash ([99] @ [100])] \<and>
        Path (Proofs m ! 0) \<noteq> 0"
  by (rule built_caseD) code_simp

subsection \<open>What Verify computes\<close>

lemma low_bit_drop_bit:
  fixes path :: "32 word"
  shows "drop_bit i path AND 1 = 1 \<longleftrightarrow> bit path i"
  by (simp add: and_one_eq bit_iff_odd_drop_bit odd_iff_mod_2_eq_one)

lemma verifyLoop_specAccumulate:
  "verifyLoop h ns (drop_bit i path) acc = specAccumulate h ns path i acc"
proof (induction ns arbitrary: i acc)
  case Nil
  show ?case by simp
next
  case (Cons n ns)
  have shift: "drop_bit 1 (drop_bit i path) = drop_bit (Suc i) path"
    by (simp add: drop_bit_drop_bit)
  show ?case
    by (simp add: low_bit_drop_bit shift Cons.IH split: prod.splits option.splits)
qed

text \<open>
  \<open>Verify\<close> is the algorithm of the specification run on the hash of the serialized block
  in place of the serialized block.
\<close>

lemma Verify_is_specVerify_of_hash:
  "Verify dflt (Some db) (Some pr) r (Some h) =
     (case Serialize db of
        (data, Some e) \<Rightarrow> (False, Some e)
      | (data, None) \<Rightarrow>
          (case h data of
             (hash, Some e) \<Rightarrow> (False, Some e)
           | (hash, None) \<Rightarrow> specVerify h (DataBlock (hash, None)) pr r))"
  using verifyLoop_specAccumulate [of h "Siblings pr" 0 "Path pr"]
  by (simp add: Verify_def specVerify_def split: prod.splits option.splits)

subsection \<open>Path bits\<close>

lemma high_bits_unset:
  fixes p :: "32 word"
  assumes "unat p < 2 ^ j" and "j \<le> i"
  shows "\<not> bit p i"
proof -
  have "2 ^ j \<le> (2 :: nat) ^ i" using assms(2) by (simp add: power_increasing)
  with assms(1) have "unat p < 2 ^ i" by linarith
  then have "unat p div 2 ^ i = 0" by simp
  then have "\<not> bit (unat p) i" by (simp add: bit_iff_odd)
  then show ?thesis by (simp add: bit_unsigned_iff)
qed

lemma bit_path_add:
  fixes p :: "32 word"
  assumes "unat p < 2 ^ j"
  shows "bit (p + 2 ^ j) i \<longleftrightarrow> bit p i \<or> (i = j \<and> j < 32)"
proof -
  have "p AND 2 ^ j = 0"
  proof (rule bit_eqI)
    fix n
    show "bit (p AND 2 ^ j) n \<longleftrightarrow> bit (0 :: 32 word) n"
      using high_bits_unset [OF assms, of n] by (auto simp: bit_simps)
  qed
  then have "p + 2 ^ j = p OR 2 ^ j" by (rule disjunctive_add_eq_or)
  then show ?thesis by (auto simp: bit_simps)
qed

subsection \<open>Accumulating along a proof\<close>

lemma specAccumulate_bits:
  assumes "\<forall>x<length ns. bit p (i + x) = bit p' (i + x)"
  shows "specAccumulate h ns p i acc = specAccumulate h ns p' i acc"
  using assms
proof (induction ns arbitrary: i acc)
  case Nil
  show ?case by simp
next
  case (Cons n ns)
  from Cons.prems have here: "bit p i = bit p' i" by force
  have "\<forall>x<length ns. bit p (Suc i + x) = bit p' (Suc i + x)"
    using Cons.prems by force
  from Cons.IH [OF this] here show ?case
    by (simp split: prod.splits option.splits)
qed

lemma specAccumulate_snoc:
  "specAccumulate h (ns @ [s]) p i acc =
     (case specAccumulate h ns p i acc of
        (v, Some e) \<Rightarrow> (v, Some e)
      | (v, None) \<Rightarrow> (if bit p (i + length ns) then h (v @ s) else h (s @ v)))"
proof (induction ns arbitrary: i acc)
  case Nil
  show ?case by (simp split: prod.splits option.splits)
next
  case (Cons n ns)
  show ?case by (simp add: Cons.IH split: prod.splits option.splits)
qed

lemma climb_levelUpdate:
  assumes lvl: "proofAtLevel j p" and j: "j < 32"
  shows "specAccumulate h (Siblings (levelUpdate buf j k p)) (Path (levelUpdate buf j k p)) 0 leaf =
           (case specAccumulate h (Siblings p) (Path p) 0 leaf of
              (v, Some e) \<Rightarrow> (v, Some e)
            | (v, None) \<Rightarrow>
                (if even (k div 2 ^ j) then h (v @ buf ! (k div 2 ^ j + 1))
                 else h (buf ! (k div 2 ^ j - 1) @ v)))"
proof -
  from lvl have len: "length (Siblings p) = j" and small: "unat (Path p) < 2 ^ j"
    by (simp_all add: proofAtLevel_def)
  show ?thesis
  proof (cases "even (k div 2 ^ j)")
    case True
    have same: "specAccumulate h (Siblings p) (Path p + 2 ^ j) 0 leaf =
                specAccumulate h (Siblings p) (Path p) 0 leaf"
      by (rule specAccumulate_bits) (simp add: bit_path_add [OF small] len)
    have top: "bit (Path p + 2 ^ j) j" using j by (simp add: bit_path_add [OF small])
    from True show ?thesis
      by (simp add: levelUpdate_def addLeft_def Let_def specAccumulate_snoc same len top
          split: prod.splits option.splits)
  next
    case False
    have top: "\<not> bit (Path p) j" by (rule high_bits_unset [OF small]) simp
    from False show ?thesis
      by (simp add: levelUpdate_def addRight_def Let_def specAccumulate_snoc len top
          split: prod.splits option.splits)
  qed
qed

subsection \<open>The levels computed by proofGen\<close>

lemma proofGenHash_loop:
  assumes run: "forLoop 0 pl 2 (proofGenHash cfg) buf = Some (buf', None)"
    and hf: "HashFunc cfg = Some h"
  shows "length buf' = length buf \<and>
         (\<forall>i. 2 * i < pl \<longrightarrow> h (buf ! (2 * i) @ buf ! (2 * i + 1)) = (buf' ! i, None))"
proof -
  let ?I = "\<lambda>idx b. even idx \<and> length b = length buf \<and>
              (\<forall>i. 2 * i < idx \<longrightarrow> h (buf ! (2 * i) @ buf ! (2 * i + 1)) = (b ! i, None)) \<and>
              (\<forall>x\<ge>idx. b ! x = buf ! x)"
  have "\<exists>j. pl \<le> j \<and> ?I j buf'"
  proof (rule forLoop_invariant [where I = ?I, OF _ _ run], goal_cases)
    case (1 idx b b')
    from 1(1) have ev: "even idx" and len: "length b = length buf"
      and sofar: "\<forall>i. 2 * i < idx \<longrightarrow> h (buf ! (2 * i) @ buf ! (2 * i + 1)) = (b ! i, None)"
      and rest: "\<forall>x\<ge>idx. b ! x = buf ! x"
      by blast+
    from 1(3) hf obtain v where inr: "idx + 1 < length b"
      and hv: "h (b ! idx @ b ! (idx + 1)) = (v, None)" and b': "b' = b[idx div 2 := v]"
      by (auto simp: proofGenHash_def callHash_def split: if_splits prod.splits)
    from ev obtain c where c: "idx = 2 * c" by (elim evenE)
    from rest have here: "b ! idx = buf ! idx" "b ! (idx + 1) = buf ! (idx + 1)" by simp_all
    have "h (buf ! (2 * i) @ buf ! (2 * i + 1)) = (b' ! i, None)" if i: "2 * i < idx + 2" for i
    proof (cases "i = c")
      case True
      with hv here b' inr c show ?thesis by simp
    next
      case False
      with i c have "2 * i < idx" by simp
      with sofar have "h (buf ! (2 * i) @ buf ! (2 * i + 1)) = (b ! i, None)" by blast
      with False b' c show ?thesis by simp
    qed
    moreover have "b' ! x = buf ! x" if "idx + 2 \<le> x" for x
      using that rest b' c by simp
    ultimately show ?case using ev len b' by simp
  qed simp_all
  then show ?thesis by (meson less_le_trans)
qed

lemma fixOdd_prefix:
  assumes "fixOdd cfg rd k buf p = Some ((buf', p', None), k')" and "p \<le> length buf"
  shows "\<forall>x<p. buf' ! x = buf ! x"
  using assms
  by (auto simp: fixOdd_def Let_def nth_append split: if_splits option.splits prod.splits sum.splits)


lemma div_two_power_Suc:
  fixes k :: nat
  shows "k div 2 ^ (j + 1) = k div 2 ^ j div 2"
proof -
  have "k div 2 ^ (j + 1) = k div (2 ^ j * 2)" by (simp add: mult.commute)
  also have "\<dots> = k div 2 ^ j div 2" by (rule div_mult2_eq)
  finally show ?thesis .
qed

lemma pair_in_range:
  fixes k pl j :: nat
  assumes "k < pl * 2 ^ (j - 1)" and "1 \<le> j"
  shows "2 * (k div 2 ^ j) < pl"
proof -
  from assms(2) obtain s where j: "j = Suc s" by (cases j) auto
  from assms(1) have "k div 2 ^ s < pl" by (simp add: j less_mult_imp_div_less)
  moreover have "k div 2 ^ j = k div 2 ^ s div 2"
    using div_two_power_Suc [of k s] by (simp add: j)
  ultimately show ?thesis by simp
qed

lemma next_pair:
  fixes k j :: nat
  shows "(if even (k div 2 ^ j) then h (b ! (k div 2 ^ j) @ b ! (k div 2 ^ j + 1))
         else h (b ! (k div 2 ^ j - 1) @ b ! (k div 2 ^ j))) =
         h (b ! (2 * (k div 2 ^ (j + 1))) @ b ! (2 * (k div 2 ^ (j + 1)) + 1))"
proof -
  note half = div_two_power_Suc [of k j]
  show ?thesis
  proof (cases "even (k div 2 ^ j)")
    case True
    then have "2 * (k div 2 ^ j div 2) = k div 2 ^ j" by simp
    with True show ?thesis by (simp only: half if_True)
  next
    case False
    then have "2 * (k div 2 ^ j div 2) + 1 = k div 2 ^ j" by (simp add: odd_two_times_div_two_succ)
    with False show ?thesis by (simp only: half if_False) (metis add_diff_cancel_right')
  qed
qed

lemma proofGenStep_climb:
  assumes run: "proofGenStep cfg rd j (buf, pl, kk, ps) = Some ((buf', pl', kk', ps'), None)"
    and hf: "HashFunc cfg = Some h"
    and j: "1 \<le> j" "j < 32"
    and lvl: "\<forall>p\<in>set ps. proofAtLevel j p"
    and ev: "even pl" and inb: "pl \<le> length buf"
    and cover: "length ps \<le> pl * 2 ^ (j - 1)"
    and climb: "\<forall>k<length ps. specAccumulate h (Siblings (ps ! k)) (Path (ps ! k)) 0 (leaves ! k) =
                  h (buf ! (2 * (k div 2 ^ j)) @ buf ! (2 * (k div 2 ^ j) + 1))"
  shows "pl' \<le> length buf' \<and>
         (\<forall>k<length ps. specAccumulate h (Siblings (ps' ! k)) (Path (ps' ! k)) 0 (leaves ! k) =
             h (buf' ! (2 * (k div 2 ^ (j + 1))) @ buf' ! (2 * (k div 2 ^ (j + 1)) + 1)))"
proof -
  from run obtain b1 where
    hash: "forLoop 0 pl 2 (proofGenHash cfg) buf = Some (b1, None)"
    and fx: "fixOdd cfg rd kk b1 (pl div 2) = Some ((buf', pl', None), kk')"
    and upd: "updateProofs buf' pl' j ps = Some ps'"
    by (auto simp: proofGenStep_def Let_def split: option.splits prod.splits)
  note H = proofGenHash_loop [OF hash hf]
  from H inb have half_in: "pl div 2 \<le> length b1" by simp
  from fixOdd_length [OF fx] half_in have f: "even pl'" "pl div 2 \<le> pl'" "pl' \<le> length buf'"
    by blast+
  note pre = fixOdd_prefix [OF fx half_in]
  have cover': "length ps \<le> pl' * 2 ^ j"
    by (rule half_cover [OF cover ev j(1) f(2)])
  note eff = updateProofs_effect [OF upd]
  have "specAccumulate h (Siblings (ps' ! k)) (Path (ps' ! k)) 0 (leaves ! k) =
          h (buf' ! (2 * (k div 2 ^ (j + 1))) @ buf' ! (2 * (k div 2 ^ (j + 1)) + 1))"
    if k: "k < length ps" for k
  proof -
    let ?i = "k div 2 ^ j"
    from k cover have "k < pl * 2 ^ (j - 1)" by linarith
    from pair_in_range [OF this j(1)] have i2: "2 * ?i < pl" .
    with ev have i: "?i < pl div 2" by (auto elim!: evenE)
    from H i2 have "h (buf ! (2 * ?i) @ buf ! (2 * ?i + 1)) = (b1 ! ?i, None)" by blast
    with climb k have old: "specAccumulate h (Siblings (ps ! k)) (Path (ps ! k)) 0 (leaves ! k) =
        (b1 ! ?i, None)"
      by simp
    from pre i have same: "buf' ! ?i = b1 ! ?i" by blast
    from k cover' have "k < pl' * 2 ^ j" by linarith
    with eff k have new: "ps' ! k = levelUpdate buf' j k (ps ! k)" by blast
    from lvl k have at: "proofAtLevel j (ps ! k)" by simp
    have "specAccumulate h (Siblings (ps' ! k)) (Path (ps' ! k)) 0 (leaves ! k) =
            (if even ?i then h (buf' ! ?i @ buf' ! (?i + 1)) else h (buf' ! (?i - 1) @ buf' ! ?i))"
      unfolding new climb_levelUpdate [OF at j(2)] old same by simp
    then show ?thesis unfolding next_pair .
  qed
  with f(3) show ?thesis by blast
qed


lemma proofGen_climb:
  assumes run: "proofGen rd m = Some (m', None)" and hf: "HashFunc (Config m) = Some h"
    and depth: "1 \<le> Depth m" "Depth m \<le> 32" and small: "length (Leaves m) \<le> 2 ^ Depth m"
    and k: "k < length (Leaves m)"
  shows "specAccumulate h (Siblings (Proofs m' ! k)) (Path (Proofs m' ! k)) 0 (Leaves m ! k) =
           (Root m', None)"
proof -
  let ?n = "length (Leaves m)"
  let ?D = "Depth m"
  let ?init = "replicate ?n \<lparr>Siblings = [], Path = 0\<rparr>"
  let ?climb = "\<lambda>ps k. specAccumulate h (Siblings (ps ! k)) (Path (ps ! k)) 0 (Leaves m ! k)"
  from run obtain buf prevLen kk ps1 bufF pF kF psF r where
    fx: "fixOdd (Config m) rd 0 (Leaves m) ?n = Some ((buf, prevLen, None), kk)"
    and upd: "updateProofs buf ?n 0 ?init = Some ps1"
    and loop: "forLoop 1 ?D 1 (proofGenStep (Config m) rd) (buf, prevLen, kk, ps1) =
                 Some ((bufF, pF, kF, psF), None)"
    and top: "callHash (Config m) (bufF ! 0 @ bufF ! 1) = Some (r, None)"
    and res: "Proofs m' = psF" "Root m' = r"
    by (auto simp: proofGen_def Let_def initProofs_def split: option.splits prod.splits if_splits)
  have init: "\<forall>p\<in>set ?init. proofAtLevel 0 p" by (simp add: proofAtLevel_def)
  from updateProofs_level [OF upd init] have ps1: "length ps1 = ?n" "\<forall>p\<in>set ps1. proofAtLevel 1 p"
    by simp_all
  from fixOdd_length [OF fx] have pl: "even prevLen" "?n \<le> prevLen" "prevLen \<le> length buf"
    by blast+
  note pre = fixOdd_prefix [OF fx order_refl]
  note eff = updateProofs_effect [OF upd]
  have first: "?climb ps1 x = h (buf ! (2 * (x div 2 ^ 1)) @ buf ! (2 * (x div 2 ^ 1) + 1))"
    if x: "x < ?n" for x
  proof -
    from eff x have new: "ps1 ! x = levelUpdate buf 0 x (?init ! x)" by simp
    from x have at: "proofAtLevel 0 (?init ! x)" by (simp add: proofAtLevel_def)
    from pre x have leaf: "Leaves m ! x = buf ! x" by simp
    have "?climb ps1 x =
            (if even (x div 2 ^ 0) then h (buf ! (x div 2 ^ 0) @ buf ! (x div 2 ^ 0 + 1))
             else h (buf ! (x div 2 ^ 0 - 1) @ buf ! (x div 2 ^ 0)))"
      unfolding new climb_levelUpdate [OF at zero_less_numeral] using x by (simp add: leaf)
    then show ?thesis unfolding next_pair by simp
  qed
  let ?I = "\<lambda>j st. case st of (b, pl, kk, ps) \<Rightarrow>
              1 \<le> j \<and> j \<le> ?D \<and> length ps = ?n \<and> (\<forall>p\<in>set ps. proofAtLevel j p) \<and>
              ?n \<le> pl * 2 ^ (j - 1) \<and> even pl \<and> pl \<le> length b \<and>
              (\<forall>x<?n. ?climb ps x = h (b ! (2 * (x div 2 ^ j)) @ b ! (2 * (x div 2 ^ j) + 1)))"
  have "\<exists>j. ?D \<le> j \<and> ?I j (bufF, pF, kF, psF)"
  proof (rule forLoop_invariant [where I = ?I, OF _ _ loop], goal_cases)
    case (1 j t t')
    obtain b pl kk ps where t: "t = (b, pl, kk, ps)" by (cases t)
    obtain b' pl' kk' ps' where t': "t' = (b', pl', kk', ps')" by (cases t')
    from 1(1) t have I: "1 \<le> j" "length ps = ?n" "\<forall>p\<in>set ps. proofAtLevel j p"
        "length ps \<le> pl * 2 ^ (j - 1)" "even pl" "pl \<le> length b"
        "\<forall>x<length ps. ?climb ps x = h (b ! (2 * (x div 2 ^ j)) @ b ! (2 * (x div 2 ^ j) + 1))"
      by auto
    from 1(2) depth(2) have j32: "j < 32" by simp
    note A = proofGenStep_level [OF 1(3) [unfolded t t'] I(3,4,5,1)]
    note B = proofGenStep_climb [OF 1(3) [unfolded t t'] hf I(1) j32 I(3,5,6,4,7)]
    from A B I(2) 1(2) show ?case by (simp add: t')
  next
    case 2
    show ?case by simp
  next
    case 3
    from ps1 pl depth first show ?case by simp
  qed
  then have fin: "\<forall>x<?n. ?climb psF x = h (bufF ! (2 * (x div 2 ^ ?D)) @ bufF ! (2 * (x div 2 ^ ?D) + 1))"
    by (auto simp: le_antisym)
  from k small have "k div 2 ^ ?D = 0" by simp
  with fin k have "?climb psF k = h (bufF ! 0 @ bufF ! 1)" by simp
  also from top hf have "\<dots> = (r, None)" by (simp add: callHash_def)
  finally show ?thesis by (simp add: res)
qed

subsection \<open>Round trip in ModeProofGen\<close>

lemma serializeBlocks_nth:
  "serializeBlocks bs = (ls, None) \<Longrightarrow> k < length bs \<Longrightarrow> Serialize (bs ! k) = (ls ! k, None)"
proof (induction bs arbitrary: ls k)
  case Nil
  then show ?case by simp
next
  case (Cons b bs)
  then show ?case
    by (cases k) (auto split: prod.splits option.splits)
qed

text \<open>
  The proofs built in \<open>ModeProofGen\<close> are proofs of the leaves: for a tree of at most
  \<open>2 ^ 32\<close> blocks, the algorithm of the specification, started from leaf \<open>k\<close>, ends in the
  root. So the round trip holds for a verification that does not hash the block, and
  \<open>Verify\<close> accepts a block whose hash, not whose serialization, is the leaf.
\<close>

lemma stored_proof_reaches_root:
  assumes built: "New dflt rd config blocks = Some (Some m, None)"
    and mode: "Mode (givenConfig config) = ModeProofGen"
    and small: "length blocks \<le> 2 ^ 32" and k: "k < length blocks"
    and hf: "HashFunc (Config m) = Some h"
  shows "length (Leaves m) = length blocks \<and>
         specVerify h (DataBlock (Leaves m ! k, None)) (Proofs m ! k) (Root m) = (True, None) \<and>
         (\<not> SortLeaves (givenConfig config) \<longrightarrow>
            specVerify h (blocks ! k) (Proofs m ! k) (Root m) = (True, None))"
proof -
  from New_fields [OF built] have n: "2 \<le> length blocks" and D: "Depth m = calTreeDepth (length blocks)"
    by simp_all
  from calTreeDepth_pos [OF n] D have pos: "1 \<le> Depth m" by simp
  from n have "0 < length blocks" by linarith
  from ceillog2_le_iff [OF this, of 32] small have "ceillog2 (length blocks) \<le> 32" by blast
  then have D32: "Depth m \<le> 32" by (simp only: D calTreeDepth_ceillog2)
  have cap: "length blocks \<le> 2 ^ Depth m"
    by (simp add: D calTreeDepth_ceillog2 le_two_power_ceillog2)
  let ?m0 = "\<lparr>Config = effectiveConfig dflt config, leafMap = Map.empty, tree = [], Root = [],
               Leaves = [], Proofs = [], Depth = calTreeDepth (length blocks)\<rparr>"
  from built n obtain leaves where lg: "leafGen ?m0 blocks = (leaves, None)"
    by (auto simp: New_eq Let_def split: prod.splits option.splits if_splits)
  let ?m1 = "?m0\<lparr>Leaves := leaves\<rparr>"
  from length_leafGen [OF lg] have len: "length leaves = length blocks" .
  from built n lg mode have run: "proofGen rd ?m1 = Some (m, None)"
    by (auto simp: New_eq Let_def split: option.splits prod.splits)
  from proofGen_fields [OF run] have f: "Leaves m = leaves" "Config m = effectiveConfig dflt config"
    by simp_all
  from hf f have hf1: "HashFunc (Config ?m1) = Some h" by simp
  from proofGen_climb [OF run hf1] pos D32 cap k D len
  have climb: "specAccumulate h (Siblings (Proofs m ! k)) (Path (Proofs m ! k)) 0 (leaves ! k) =
                 (Root m, None)"
    by simp
  then have leafv: "specVerify h (DataBlock (Leaves m ! k, None)) (Proofs m ! k) (Root m) = (True, None)"
    by (simp add: specVerify_def f)
  have "specVerify h (blocks ! k) (Proofs m ! k) (Root m) = (True, None)"
    if ns: "\<not> SortLeaves (givenConfig config)"
  proof -
    from lg ns have "serializeBlocks blocks = (leaves, None)"
      by (auto simp: leafGen_def split: prod.splits option.splits)
    from serializeBlocks_nth [OF this k] climb show ?thesis by (simp add: specVerify_def)
  qed
  with leafv len f show ?thesis by simp
qed

lemma Verify_accepts_preimage_of_leaf:
  assumes built: "New dflt rd config blocks = Some (Some m, None)"
    and mode: "Mode (givenConfig config) = ModeProofGen"
    and small: "length blocks \<le> 2 ^ 32" and k: "k < length blocks"
    and hf: "HashFunc (Config m) = Some h"
    and ser: "Serialize db = (data, None)" and pre: "h data = (Leaves m ! k, None)"
  shows "MerkleTree_Verify dflt m (Some db) (Some (Proofs m ! k)) = (True, None)"
  using stored_proof_reaches_root [OF built mode small k hf] ser pre hf
  by (simp add: MerkleTree_Verify_def Verify_is_specVerify_of_hash)

subsection \<open>Verification of the proofs of a tree\<close>

text \<open>
  C1: every block of a built tree should verify against its own proof and the root. The
  tree over "a", "b" has the root \<open>H (a @ b)\<close> and for "a" the proof \<open>([b], 1)\<close>, which the
  algorithm of the specification accepts; \<open>Verify\<close> hashes the block first, computes
  \<open>H (H a @ b)\<close>, and rejects both blocks.
\<close>

theorem Verify_rejects_own_proofs:
  "\<exists>m. New (totalHash lengthHash) (constEntropy 0)
          (Some (plainConfig (totalHash lengthHash) ModeProofGen)) [block [97], block [98]] =
          Some (Some m, None) \<and>
        Root m = lengthHash ([97] @ [98]) \<and>
        Proofs m = [\<lparr>Siblings = [[98]], Path = 1\<rparr>, \<lparr>Siblings = [[97]], Path = 0\<rparr>] \<and>
        MerkleTree_Verify (totalHash lengthHash) m (Some (block [97])) (Some (Proofs m ! 0)) = (False, None) \<and>
        MerkleTree_Verify (totalHash lengthHash) m (Some (block [98])) (Some (Proofs m ! 1)) = (False, None) \<and>
        specVerify (totalHash lengthHash) (block [97]) (Proofs m ! 0) (Root m) = (True, None) \<and>
        specVerify (totalHash lengthHash) (block [98]) (Proofs m ! 1) (Root m) = (True, None)"
  by (rule built_caseD) code_simp

text \<open>
  C2: \<open>Verify\<close> should start its accumulator from the serialized block, unhashed. For the
  block "a", the proof \<open>([b], 1)\<close> and the root \<open>H (a @ b)\<close> the algorithm of the specification
  answers true and \<open>Verify\<close> answers false: its accumulator starts from \<open>H a\<close>.
\<close>

theorem Verify_hashes_block:
  "specVerify (totalHash lengthHash) (block [97]) \<lparr>Siblings = [[98]], Path = 1\<rparr>
       (lengthHash ([97] @ [98])) = (True, None) \<and>
   Verify (totalHash lengthHash) (Some (block [97])) (Some \<lparr>Siblings = [[98]], Path = 1\<rparr>)
       (lengthHash ([97] @ [98])) (Some (totalHash lengthHash)) = (False, None) \<and>
   Verify (totalHash lengthHash) (Some (block [97])) (Some \<lparr>Siblings = [[98]], Path = 1\<rparr>)
       (lengthHash (lengthHash [97] @ [98])) (Some (totalHash lengthHash)) = (True, None)"
  by code_simp

text \<open>
  Apart from the hashing of the block, a second thing separates the stored proofs from the
  root in the modes that build the tree: the duplicated node "c" of the leaves "a", "b", "c"
  is propagated to level 1 unhashed, while its proof records "c" as its level-0 sibling;
  the algorithm of the specification rejects this proof as well.
\<close>

lemma propagated_leaf_proof:
  "\<exists>m. New (totalHash lengthHash) (constEntropy 0)
          (Some (plainConfig (totalHash lengthHash) ModeProofGenAndTreeBuild))
          [block [97], block [98], block [99]] = Some (Some m, None) \<and>
        tree m = [[[97], [98], [99], [99]], [lengthHash ([97] @ [98]), [99]]] \<and>
        Proofs m ! 2 = \<lparr>Siblings = [[99], lengthHash ([97] @ [98])], Path = 1\<rparr> \<and>
        specVerify (totalHash lengthHash) (block [99]) (Proofs m ! 2) (Root m) = (False, None) \<and>
        specVerify (totalHash lengthHash) (block [97]) (Proofs m ! 0) (Root m) = (True, None)"
  by (rule built_caseD) code_simp

subsection \<open>Identical pairs\<close>

text \<open>
  C3: an identical pair should be propagated unhashed in every mode. For the leaves
  "a", "b", "c" under the duplication policy, \<open>ModeTreeBuild\<close> has level 1 \<open>[H (a @ b), c]\<close>;
  \<open>ModeProofGen\<close> hashes the duplicated pair, so the level-1 sibling of "a" is \<open>H (c @ c)\<close>
  and the two modes give different roots.
\<close>

theorem proofGen_hashes_identical_pair:
  "(\<exists>m. New (totalHash lengthHash) (constEntropy 0)
          (Some (plainConfig (totalHash lengthHash) ModeTreeBuild))
          [block [97], block [98], block [99]] = Some (Some m, None) \<and>
        tree m = [[[97], [98], [99], [99]], [lengthHash ([97] @ [98]), [99]]] \<and>
        Root m = lengthHash (lengthHash ([97] @ [98]) @ [99])) \<and>
   (\<exists>m. New (totalHash lengthHash) (constEntropy 0)
          (Some (plainConfig (totalHash lengthHash) ModeProofGen))
          [block [97], block [98], block [99]] = Some (Some m, None) \<and>
        Siblings (Proofs m ! 0) = [[98], lengthHash ([99] @ [99])] \<and>
        Root m = lengthHash (lengthHash ([97] @ [98]) @ lengthHash ([99] @ [99])) \<and>
        Root m \<noteq> lengthHash (lengthHash ([97] @ [98]) @ [99]))"
  by (intro conjI; rule built_caseD; code_simp)

subsection \<open>The walk of GenerateProof\<close>

lemma forRange_total:
  assumes step: "\<And>j t. I j t \<Longrightarrow> j < n \<Longrightarrow> \<exists>t'. body j t = Some t' \<and> I (j + d) t'"
    and d: "0 < d"
  shows "I i s \<Longrightarrow> \<exists>s' j. forRange i n d body s = Some s' \<and> n \<le> j \<and> I j s'"
proof (induction "n - i" arbitrary: i s rule: less_induct)
  case less
  show ?case
  proof (cases "i < n")
    case True
    from step [OF less.prems True] obtain t where t: "body i s = Some t" "I (i + d) t" by blast
    have "n - (i + d) < n - i" using True d by linarith
    from less.hyps [OF this t(2)] obtain s' j where
      "forRange (i + d) n d body t = Some s'" "n \<le> j" "I j s'" by blast
    with True d t(1) show ?thesis by (subst forRange.simps) auto
  next
    case False
    then have "forRange i n d body s = Some s" by (subst forRange.simps) simp
    with False less.prems show ?thesis by (intro exI [of _ s] exI [of _ i]) simp
  qed
qed

lemma streamed_proofs:
  assumes run: "updateProofsFromTree t (replicate n \<lparr>Siblings = [], Path = 0\<rparr>) = Some ps"
    and cover: "\<forall>i<length t. n \<le> length (t ! i) * 2 ^ i"
  shows "length ps = n \<and> (\<forall>k<n. ps ! k = proofOfLeaf t k (length t))"
proof -
  let ?I = "\<lambda>j q. j \<le> length t \<and> length q = n \<and> (\<forall>k<n. q ! k = proofOfLeaf t k j)"
  from run have loop:
    "forRange 0 (length t) 1 (\<lambda>i ps. updateProofs (t ! i) (length (t ! i)) i ps)
       (replicate n \<lparr>Siblings = [], Path = 0\<rparr>) = Some ps"
    by (simp add: updateProofsFromTree_def)
  have "\<exists>j. length t \<le> j \<and> ?I j ps"
  proof (rule forRange_invariant [where I = ?I, OF _ _ loop], goal_cases)
    case (1 j q q')
    from 1(1) have q: "length q = n" "\<forall>k<n. q ! k = proofOfLeaf t k j" by auto
    note eff = updateProofs_effect [OF 1(3)]
    have "q' ! k = proofOfLeaf t k (j + 1)" if k: "k < n" for k
    proof -
      from cover 1(2) k have "k < length (t ! j) * 2 ^ j" by (meson less_le_trans)
      with eff k q(1) have "q' ! k = levelUpdate (t ! j) j k (q ! k)" by simp
      with q(2) k show ?thesis by simp
    qed
    with eff q(1) 1(2) show ?case by simp
  qed simp_all
  then show ?thesis by (auto simp: le_antisym)
qed


lemma generateProofStep_proofOfLeaf:
  assumes j: "j < length t" and ls: "length sibs = length t"
    and tk: "take j sibs = Siblings (proofOfLeaf t k j)"
    and ev: "even (length (t ! j))" and inr: "k div 2 ^ j < length (t ! j)"
  shows "\<exists>sibs'. generateProofStep t j (k div 2 ^ j, Path (proofOfLeaf t k j), sibs) =
                   Some (k div 2 ^ (j + 1), Path (proofOfLeaf t k (j + 1)), sibs') \<and>
                 length sibs' = length t \<and>
                 take (j + 1) sibs' = Siblings (proofOfLeaf t k (j + 1))"
proof -
  define P where "P = proofOfLeaf t k j"
  define idx where "idx = k div 2 ^ j"
  have "k div 2 ^ (j + 1) = k div (2 ^ j * 2)" by (simp add: mult.commute)
  also have "\<dots> = k div 2 ^ j div 2" by (rule div_mult2_eq)
  finally have half: "k div 2 ^ (j + 1) = idx div 2" by (simp only: idx_def)
  have tk': "take (j + 1) (sibs[j := x]) = Siblings P @ [x]" for x
    using j ls tk by (simp add: take_Suc_conv_app_nth P_def)
  have P': "proofOfLeaf t k (j + 1) =
        (if even idx then addLeft (t ! j ! (idx + 1)) j P else addRight (t ! j ! (idx - 1)) P)"
    by (simp add: levelUpdate_def idx_def Let_def P_def)
  show ?thesis
  proof (cases "odd idx")
    case True
    then have "idx - 1 < length (t ! j)" using inr by (simp add: idx_def)
    with True j ls have run:
      "generateProofStep t j (idx, Path P, sibs) = Some (idx div 2, Path P, sibs[j := t ! j ! (idx - 1)])"
      by (simp add: generateProofStep_def)
    from True have "proofOfLeaf t k (j + 1) = addRight (t ! j ! (idx - 1)) P"
      by (simp only: P' if_False)
    then have "Path (proofOfLeaf t k (j + 1)) = Path P"
      "Siblings (proofOfLeaf t k (j + 1)) = Siblings P @ [t ! j ! (idx - 1)]"
      by (simp_all only: addRight_def) simp_all
    then show ?thesis
      unfolding half P_def [symmetric] idx_def [symmetric] run
      by (intro exI [of _ "sibs[j := t ! j ! (idx - 1)]"]) (simp only: tk' ls length_list_update simp_thms)
  next
    case False
    with ev inr have "idx + 1 < length (t ! j)" by (auto simp: idx_def elim!: evenE)
    with False j ls have run:
      "generateProofStep t j (idx, Path P, sibs) =
         Some (idx div 2, Path P + push_bit j 1, sibs[j := t ! j ! (idx + 1)])"
      by (simp add: generateProofStep_def)
    from False have e: "even idx" by simp
    have "proofOfLeaf t k (j + 1) = addLeft (t ! j ! (idx + 1)) j P"
      unfolding P' by (simp only: e if_True)
    then have "Path (proofOfLeaf t k (j + 1)) = Path P + push_bit j 1"
      "Siblings (proofOfLeaf t k (j + 1)) = Siblings P @ [t ! j ! (idx + 1)]"
      by (simp_all only: addLeft_def) simp_all
    then show ?thesis
      unfolding half P_def [symmetric] idx_def [symmetric] run
      by (intro exI [of _ "sibs[j := t ! j ! (idx + 1)]"]) (simp only: tk' ls length_list_update simp_thms)
  qed
qed


lemma generateProof_walk:
  assumes lv: "\<forall>i<length t. even (length (t ! i)) \<and> k div 2 ^ i < length (t ! i)"
  shows "forRange 0 (length t) 1 (generateProofStep t) (k, 0, replicate (length t) []) =
           Some (k div 2 ^ length t, Path (proofOfLeaf t k (length t)),
                 Siblings (proofOfLeaf t k (length t)))"
proof -
  let ?D = "length t"
  let ?I = "\<lambda>j st. j \<le> ?D \<and> (\<exists>sibs. st = (k div 2 ^ j, Path (proofOfLeaf t k j), sibs) \<and>
              length sibs = ?D \<and> take j sibs = Siblings (proofOfLeaf t k j))"
  have "\<exists>s' j. forRange 0 ?D 1 (generateProofStep t) (k, 0, replicate ?D []) = Some s' \<and>
          ?D \<le> j \<and> ?I j s'"
  proof (rule forRange_total [where I = ?I], goal_cases)
    case (1 j st)
    then obtain sibs where st: "st = (k div 2 ^ j, Path (proofOfLeaf t k j), sibs)"
      and ls: "length sibs = ?D" and tk: "take j sibs = Siblings (proofOfLeaf t k j)"
      by blast
    from lv 1(2) have ev: "even (length (t ! j))" and inr: "k div 2 ^ j < length (t ! j)"
      by blast+
    from generateProofStep_proofOfLeaf [OF 1(2) ls tk ev inr] 1(2) show ?case
      unfolding st by auto
  next
    case 2
    show ?case by simp
  next
    case 3
    show ?case by simp
  qed
  then obtain s' j where run: "forRange 0 ?D 1 (generateProofStep t) (k, 0, replicate ?D []) = Some s'"
    and j: "?D \<le> j" and I: "?I j s'"
    by blast
  from j I have jD: "j = ?D" by simp
  from I obtain sibs where s': "s' = (k div 2 ^ j, Path (proofOfLeaf t k j), sibs)"
    and ls: "length sibs = ?D" and tk: "take j sibs = Siblings (proofOfLeaf t k j)"
    by blast
  from tk ls jD have "sibs = Siblings (proofOfLeaf t k ?D)" by simp
  with run s' jD show ?thesis by simp
qed

text \<open>
  In \<open>ModeProofGenAndTreeBuild\<close> the walk of \<open>GenerateProof\<close> from the index of a leaf ends
  without a panic in the proof stored for that leaf: once the index is found, the two ways
  of producing a proof agree. What differs is the lookup, by the hash of the block.
\<close>

lemma GenerateProof_walk_is_stored_proof:
  assumes built: "New dflt rd config blocks = Some (Some m, None)"
    and mode: "Mode (givenConfig config) = ModeProofGenAndTreeBuild"
    and k: "k < length blocks"
  shows "forRange 0 (Depth m) 1 (generateProofStep (tree m)) (k, 0, replicate (Depth m) []) =
           Some (k div 2 ^ Depth m, Path (Proofs m ! k), Siblings (Proofs m ! k))"
proof -
  from New_fields [OF built] have n: "2 \<le> length blocks" and D: "Depth m = calTreeDepth (length blocks)"
    by simp_all
  let ?m0 = "\<lparr>Config = effectiveConfig dflt config, leafMap = Map.empty, tree = [], Root = [],
               Leaves = [], Proofs = [], Depth = calTreeDepth (length blocks)\<rparr>"
  from built n obtain leaves where lg: "leafGen ?m0 blocks = (leaves, None)"
    by (auto simp: New_eq Let_def split: prod.splits option.splits if_splits)
  let ?m1 = "?m0\<lparr>Leaves := leaves\<rparr>"
  from length_leafGen [OF lg] have len: "length leaves = length blocks" .
  from built n lg mode obtain m2 ps where
    run: "treeBuild rd ?m1 = Some (m2, None)"
    and upd: "updateProofsFromTree (tree (initProofs m2)) (Proofs (initProofs m2)) = Some ps"
    and res: "m = (initProofs m2)\<lparr>Proofs := ps\<rparr>"
    by (auto simp: New_eq Let_def mode_defs split: option.splits prod.splits)
  from treeBuild_fields [OF run] have f: "Depth m2 = Depth ?m1" "Leaves m2 = leaves" by simp_all
  from treeBuild_levels [OF run]
  have lv: "length (tree m2) = Depth m"
    "\<forall>i<length (tree m2). length blocks \<le> length (tree m2 ! i) * 2 ^ i \<and> even (length (tree m2 ! i))"
    by (auto simp: D len)
  have t: "tree m = tree m2" and p: "Proofs m = ps" by (simp_all add: res initProofs_def)
  from upd have upd': "updateProofsFromTree (tree m2)
      (replicate (length blocks) \<lparr>Siblings = [], Path = 0\<rparr>) = Some ps"
    by (simp add: initProofs_def f len)
  from lv(2) have "\<forall>i<length (tree m2). length blocks \<le> length (tree m2 ! i) * 2 ^ i" by blast
  from streamed_proofs [OF upd' this] k have stored: "ps ! k = proofOfLeaf (tree m2) k (length (tree m2))"
    by blast
  have "even (length (tree m2 ! i)) \<and> k div 2 ^ i < length (tree m2 ! i)"
    if i: "i < length (tree m2)" for i
  proof -
    from lv(2) i k have "k < length (tree m2 ! i) * 2 ^ i" and e: "even (length (tree m2 ! i))"
      by (meson less_le_trans)+
    then have "k div 2 ^ i < length (tree m2 ! i)"
      by (simp add: less_mult_imp_div_less)
    with e show ?thesis by simp
  qed
  then have "\<forall>i<length (tree m2). even (length (tree m2 ! i)) \<and> k div 2 ^ i < length (tree m2 ! i)"
    by blast
  from generateProof_walk [OF this] show ?thesis
    by (simp add: t p stored lv(1))
qed

lemma GenerateProof_of_indexed_block:
  assumes built: "New dflt rd config blocks = Some (Some m, None)"
    and mode: "Mode (givenConfig config) = ModeProofGenAndTreeBuild"
    and ser: "Serialize b = (data, None)"
    and hsh: "callHash (Config m) data = Some (h, None)"
    and idx: "leafMap m h = Some k" and k: "k < length blocks"
  shows "GenerateProof m b = Some (Some (Proofs m ! k), None)"
proof -
  from built mode have md: "Mode (Config m) = ModeProofGenAndTreeBuild"
    by (auto simp: New_eq Let_def mode_defs initProofs_def
        split: option.splits prod.splits if_splits dest!: treeBuild_fields)
  from GenerateProof_walk_is_stored_proof [OF built mode k] ser hsh idx md show ?thesis
    by (simp add: GenerateProof_def mode_defs)
qed

subsection \<open>Proofs on demand\<close>

text \<open>
  C4: in \<open>ModeProofGenAndTreeBuild\<close> the proof stored for a block should equal the proof
  \<open>GenerateProof\<close> returns for it. For the tree over "a", "b" the stored proof of "a" is
  \<open>([b], 1)\<close>, and \<open>GenerateProof\<close> returns no proof but the not-a-member error.
\<close>

theorem GenerateProof_differs_from_stored:
  "\<exists>m. New (totalHash lengthHash) (constEntropy 0)
          (Some (plainConfig (totalHash lengthHash) ModeProofGenAndTreeBuild))
          [block [97], block [98]] = Some (Some m, None) \<and>
        Proofs m ! 0 = \<lparr>Siblings = [[98]], Path = 1\<rparr> \<and>
        GenerateProof m (block [97]) = Some (None, Some ErrNotMember)"
  by (rule built_caseD) code_simp

text \<open>
  C5: \<open>GenerateProof\<close> should find the index of every block whose leaf is in the tree. In
  the tree over "a", "b" built in \<open>ModeTreeBuild\<close> the leaf "a" is in the index at position
  0, and \<open>GenerateProof\<close> answers that the block is not a member: it looks up \<open>H a\<close>.
\<close>

theorem GenerateProof_misses_leaf:
  "\<exists>m. New (totalHash lengthHash) (constEntropy 0)
          (Some (plainConfig (totalHash lengthHash) ModeTreeBuild))
          [block [97], block [98]] = Some (Some m, None) \<and>
        Leaves m = [[97], [98]] \<and>
        leafMap m [97] = Some 0 \<and>
        leafMap m (lengthHash [97]) = None \<and>
        GenerateProof m (block [97]) = Some (None, Some ErrNotMember)"
  by (rule built_caseD) code_simp

end
